theory Spec2Isabelle
  imports Complex_Main "HOL-Library.FSet" "HOL-Library.Sublist"
begin

section \<open>API key manager: key parsing, rotation state and per-request key cycling\<close>

text \<open>
  A shallow embedding of \<^verbatim>\<open>app/core/api_key_manager.py\<close>.

  \<^item> Python \<^verbatim>\<open>str\<close> values are \<^typ>\<open>string\<close>; names of environment variables and
    provider names are taken to be ASCII.
  \<^item> \<^verbatim>\<open>os.environ\<close> is an association list in the dictionary's iteration order;
    \<^verbatim>\<open>os.getenv\<close> is \<^const>\<open>map_of\<close>.
  \<^item> \<^verbatim>\<open>get_provider_env_var_patterns\<close> comes from \<^verbatim>\<open>app.core.provider_config\<close>, which
    is not part of the sources at hand: it is the field \<open>env_var_patterns\<close> of a parameter
    \<open>cfg\<close>, with \<open>None\<close> for a call that raises. The other field of \<open>cfg\<close> is the
    interpreter's limit on the digits that \<^verbatim>\<open>int()\<close> converts
    (\<^verbatim>\<open>sys.get_int_max_str_digits()\<close>: 4300 by default from Python 3.11 on, 0 for no
    limit).
  \<^item> The module constants \<^verbatim>\<open>KEY_COOLDOWN_SECONDS\<close> and \<^verbatim>\<open>MAX_KEY_RETRY_CYCLES\<close> are
    fixed at import time from the environment; they are parameters \<open>cd\<close> (a field of it)
    and \<open>mc\<close>.
  \<^item> \<^verbatim>\<open>time.time()\<close> readings are real numbers (every binary64 value is one) handed
    to the operation that reads the clock. The difference \<^verbatim>\<open>current_time - fail_time\<close> is
    a binary64 subtraction, which rounds: it is the field \<open>float_sub\<close> of the parameter
    \<open>cd\<close>, and nothing is assumed of it. The comparison of the difference with the
    integer \<^verbatim>\<open>KEY_COOLDOWN_SECONDS\<close> is exact in Python.
  \<^item> \<^verbatim>\<open>_rotation_state\<close>, a \<^verbatim>\<open>defaultdict(KeyRotationState)\<close>, is a partial map; a
    subscript access creates the missing entry.
  \<^item> Logging has no effect on the values modelled and is left out.
\<close>

subsection \<open>Environment and provider configuration\<close>

type_synonym environ = "(string \<times> string) list"

record provider_config =
  env_var_patterns :: "string \<Rightarrow> string list option"
  int_max_str_digits :: nat

definition getenv :: "environ \<Rightarrow> string \<Rightarrow> string option" where
  "getenv env name = map_of env name"

text \<open>
  \<^verbatim>\<open>KEY_COOLDOWN_SECONDS\<close> together with the subtraction of two clock readings as the
  interpreter computes it.
\<close>

record cooldown_setting =
  KEY_COOLDOWN_SECONDS :: int
  float_sub :: "real \<Rightarrow> real \<Rightarrow> real"

subsection \<open>String helpers used by the key parser\<close>

definition upper_char :: "char \<Rightarrow> char" where
  "upper_char c =
     (case map_of (zip ''abcdefghijklmnopqrstuvwxyz'' ''ABCDEFGHIJKLMNOPQRSTUVWXYZ'') c of
        None \<Rightarrow> c
      | Some u \<Rightarrow> u)"

definition upper :: "string \<Rightarrow> string" where
  "upper s = map upper_char s"

text \<open>\<^verbatim>\<open>s.replace("-", "_")\<close>\<close>

definition replace_hyphen :: "string \<Rightarrow> string" where
  "replace_hyphen s = map (\<lambda>c. if c = CHR ''-'' then CHR ''_'' else c) s"

definition INDEX_token :: string where
  "INDEX_token = ''{INDEX}''"

text \<open>\<^verbatim>\<open>"{INDEX}" in pattern\<close>\<close>

fun contains_INDEX :: "string \<Rightarrow> bool" where
  "contains_INDEX [] = False"
| "contains_INDEX (c # cs) = (prefix INDEX_token (c # cs) \<or> contains_INDEX cs)"

text \<open>
  \<^verbatim>\<open>re.escape(pattern).replace(r"\{INDEX\}", r"(\d+)")\<close> turns the pattern into the
  literal pieces between the occurrences of the token, each two neighbours separated by
  the group \<^verbatim>\<open>(\d+)\<close>. \<open>split_INDEX\<close> gives the literal pieces, left to right.
\<close>

fun split_INDEX :: "string \<Rightarrow> string list" where
  "split_INDEX [] = [[]]"
| "split_INDEX (c # cs) =
     (if prefix INDEX_token (c # cs) then [] # split_INDEX (drop 6 cs)
      else (case split_INDEX cs of
              [] \<Rightarrow> [[c]]
            | s # ss \<Rightarrow> (c # s) # ss))"

definition is_digit :: "char \<Rightarrow> bool" where
  "is_digit c = (c \<in> set ''0123456789'')"

definition digit_val :: "char \<Rightarrow> int option" where
  "digit_val c = map_of (zip ''0123456789'' [0, 1, 2, 3, 4, 5, 6, 7, 8, 9]) c"

text \<open>
  \<^verbatim>\<open>int(s)\<close> on a run of decimal digits; \<open>None\<close> stands for \<^verbatim>\<open>ValueError\<close>, which
  \<^verbatim>\<open>int\<close> raises when the run has more than 640 digits and more than the limit
  \<open>max_digits\<close>, if that is not 0.
\<close>

fun py_int_acc :: "int \<Rightarrow> string \<Rightarrow> int option" where
  "py_int_acc acc [] = Some acc"
| "py_int_acc acc (c # cs) =
     (case digit_val c of
        None \<Rightarrow> None
      | Some d \<Rightarrow> py_int_acc (10 * acc + d) cs)"

definition py_int :: "nat \<Rightarrow> string \<Rightarrow> int option" where
  "py_int max_digits s =
     (if s = [] then None
      else if 640 < length s \<and> 0 < max_digits \<and> max_digits < length s then None
      else py_int_acc 0 s)"

text \<open>
  Matching of the rest of the compiled expression after a group: the literal pieces
  \<open>l # ls\<close> with a group between neighbours, up to \<^verbatim>\<open>$\<close>, which in Python also matches
  just before a final newline.
\<close>

fun match_segs :: "string list \<Rightarrow> string \<Rightarrow> bool" where
  "match_segs [] s = False"
| "match_segs [l] s = (s = l \<or> s = l @ ''\<newline>'')"
| "match_segs (l # l' # ls) s =
     (prefix l s \<and>
      (\<exists>k \<in> set [1..<Suc (length (takeWhile is_digit (drop (length l) s)))].
          match_segs (l' # ls) (drop (length l + k) s)))"

text \<open>
  \<^verbatim>\<open>regex.match(env_var)\<close> followed by \<^verbatim>\<open>match.group(1)\<close>: the first group is greedy,
  so it is the longest run of digits after which the rest still matches.
\<close>

definition regex_group1 :: "string \<Rightarrow> string \<Rightarrow> string option" where
  "regex_group1 pattern_with_index env_var =
     (case split_INDEX pattern_with_index of
        l # l' # ls \<Rightarrow>
          if prefix l env_var then
            (let r = drop (length l) env_var;
                 n = length (takeWhile is_digit r)
             in case find (\<lambda>k. match_segs (l' # ls) (drop k r)) (rev [1..<Suc n]) of
                  None \<Rightarrow> None
                | Some k \<Rightarrow> Some (take k r))
          else None
      | _ \<Rightarrow> None)"

subsection \<open>\<^verbatim>\<open>_parse_provider_keys\<close>\<close>

text \<open>
  The nested \<^verbatim>\<open>_add_key\<close> updates the two closure variables \<^verbatim>\<open>keys\<close> and \<^verbatim>\<open>seen\<close>.
\<close>

definition add_key :: "string option \<Rightarrow> string list \<times> string set \<Rightarrow> string list \<times> string set" where
  "add_key v ks =
     (case v of
        None \<Rightarrow> ks
      | Some s \<Rightarrow>
          if s \<noteq> [] \<and> s \<notin> snd ks then (fst ks @ [s], insert s (snd ks)) else ks)"

fun collect_matches :: "nat \<Rightarrow> string \<Rightarrow> environ \<Rightarrow> (int \<times> string) list" where
  "collect_matches max_digits pattern_with_index [] = []"
| "collect_matches max_digits pattern_with_index ((env_var, v) # rest) =
     (case regex_group1 pattern_with_index env_var of
        None \<Rightarrow> collect_matches max_digits pattern_with_index rest
      | Some g \<Rightarrow>
          (case py_int max_digits g of
             None \<Rightarrow> collect_matches max_digits pattern_with_index rest
           | Some index \<Rightarrow> (index, v) # collect_matches max_digits pattern_with_index rest))"

definition collect_indexed :: "nat \<Rightarrow> environ \<Rightarrow> string \<Rightarrow> (int \<times> string) list" where
  "collect_indexed max_digits env pattern_with_index =
     sort_key fst (collect_matches max_digits pattern_with_index env)"

definition default_patterns :: "string \<Rightarrow> string list" where
  "default_patterns provider_name =
     (let env_prefix = replace_hyphen (upper provider_name)
      in [env_prefix @ ''_API_KEY'', env_prefix @ ''_API_KEY_{INDEX}''])"

definition provider_patterns :: "provider_config \<Rightarrow> string \<Rightarrow> string list" where
  "provider_patterns cfg provider_name =
     (let patterns = (case env_var_patterns cfg provider_name of None \<Rightarrow> [] | Some ps \<Rightarrow> ps)
      in if patterns = [] then default_patterns provider_name else patterns)"

definition parse_pattern ::
  "nat \<Rightarrow> environ \<Rightarrow> string list \<times> string set \<Rightarrow> string \<Rightarrow> string list \<times> string set" where
  "parse_pattern max_digits env ks pattern =
     (if contains_INDEX pattern
      then fold (\<lambda>(_, v). add_key (Some v)) (collect_indexed max_digits env pattern) ks
      else add_key (getenv env pattern) ks)"

definition parse_provider_keys :: "provider_config \<Rightarrow> environ \<Rightarrow> string \<Rightarrow> string list" where
  "parse_provider_keys cfg env provider_name =
     fst (fold (\<lambda>pattern ks. parse_pattern (int_max_str_digits cfg) env ks pattern)
            (provider_patterns cfg provider_name) ([], {}))"

subsection \<open>Rotation state\<close>

record KeyRotationState =
  last_used_index :: int
  failed_keys :: "string \<rightharpoonup> real"

definition KeyRotationState_default :: KeyRotationState where
  "KeyRotationState_default = \<lparr>last_used_index = - 1, failed_keys = Map.empty\<rparr>"

type_synonym rotation_state = "string \<rightharpoonup> KeyRotationState"

text \<open>
  \<^verbatim>\<open>_rotation_state[provider]\<close>: \<open>state_at\<close> is the value read, \<open>touch\<close> the dictionary
  afterwards (the default factory has filled a missing entry).
\<close>

definition state_at :: "rotation_state \<Rightarrow> string \<Rightarrow> KeyRotationState" where
  "state_at rs provider_name =
     (case rs provider_name of None \<Rightarrow> KeyRotationState_default | Some st \<Rightarrow> st)"

definition touch :: "rotation_state \<Rightarrow> string \<Rightarrow> rotation_state" where
  "touch rs provider_name = rs(provider_name \<mapsto> state_at rs provider_name)"


subsection \<open>\<^verbatim>\<open>KeyCycleTracker\<close>\<close>

record KeyCycleTracker =
  provider :: string
  max_cycles :: int
  current_cycle :: int
  keys_tried_this_cycle :: "string fset"
  keys_attempted :: "string fset"
  all_keys :: "string list"
  key_index :: int

text \<open>\<^verbatim>\<open>__init__\<close>; \<open>mc\<close> is \<^verbatim>\<open>MAX_KEY_RETRY_CYCLES\<close>.\<close>

definition KeyCycleTracker_init ::
  "provider_config \<Rightarrow> environ \<Rightarrow> int \<Rightarrow> string \<Rightarrow> int option \<Rightarrow> rotation_state
     \<Rightarrow> KeyCycleTracker \<times> rotation_state" where
  "KeyCycleTracker_init cfg env mc provider_name max_cycles_arg rs =
     (\<lparr>provider = provider_name,
       max_cycles = (case max_cycles_arg of None \<Rightarrow> mc | Some m \<Rightarrow> m),
       current_cycle = 0,
       keys_tried_this_cycle = {||},
       keys_attempted = {||},
       all_keys = parse_provider_keys cfg env provider_name,
       key_index = last_used_index (state_at rs provider_name)\<rparr>,
      touch rs provider_name)"

definition should_reset_cycle :: "KeyCycleTracker \<Rightarrow> bool" where
  "should_reset_cycle tr = (fcard (keys_tried_this_cycle tr) \<ge> length (all_keys tr))"

definition reset_cycle :: "KeyCycleTracker \<Rightarrow> KeyCycleTracker" where
  "reset_cycle tr = tr\<lparr>current_cycle := current_cycle tr + 1, keys_tried_this_cycle := {||}\<rparr>"

text \<open>
  The \<^verbatim>\<open>for _ in range(num_keys)\<close> loop of \<^verbatim>\<open>get_next_key\<close>; the counter is the number
  of iterations left. \<open>cd\<close> is \<^verbatim>\<open>KEY_COOLDOWN_SECONDS\<close>.
\<close>

fun probe_keys ::
  "cooldown_setting \<Rightarrow> real \<Rightarrow> nat \<Rightarrow> KeyCycleTracker \<Rightarrow> KeyRotationState
     \<Rightarrow> string option \<times> KeyCycleTracker \<times> KeyRotationState" where
  "probe_keys cd current_time 0 tr state = (None, tr, state)"
| "probe_keys cd current_time (Suc n) tr state =
     (let num_keys = int (length (all_keys tr));
          tr1 = tr\<lparr>key_index := (key_index tr + 1) mod num_keys\<rparr>;
          candidate = all_keys tr1 ! nat (key_index tr1)
      in if candidate |\<in>| keys_tried_this_cycle tr1 then probe_keys cd current_time n tr1 state
         else if candidate |\<notin>| keys_attempted tr1 \<and>
                 (case failed_keys state candidate of
                    None \<Rightarrow> False
                  | Some fail_time \<Rightarrow> KEY_COOLDOWN_SECONDS cd > 0 \<and> float_sub cd current_time fail_time < real_of_int (KEY_COOLDOWN_SECONDS cd))
         then probe_keys cd current_time n tr1 state
         else (Some candidate,
               tr1\<lparr>keys_tried_this_cycle := finsert candidate (keys_tried_this_cycle tr1),
                   keys_attempted := finsert candidate (keys_attempted tr1)\<rparr>,
               state\<lparr>last_used_index := key_index tr1\<rparr>))"

text \<open>
  \<^verbatim>\<open>get_next_key\<close>. Every activation reads the clock once: \<open>clock 0\<close> is the reading of
  this activation, \<open>clock 1\<close> that of the nested call after a cycle reset.
\<close>

function get_next_key ::
  "cooldown_setting \<Rightarrow> (nat \<Rightarrow> real) \<Rightarrow> KeyCycleTracker \<Rightarrow> rotation_state
     \<Rightarrow> string option \<times> KeyCycleTracker \<times> rotation_state" where
  "get_next_key cd clock tr rs =
     (if all_keys tr = [] then (None, tr, rs)
      else if current_cycle tr \<ge> max_cycles tr then (None, tr, rs)
      else (case probe_keys cd (clock 0) (length (all_keys tr)) tr (state_at rs (provider tr)) of
              (Some k, tr1, state1) \<Rightarrow> (Some k, tr1, rs(provider tr \<mapsto> state1))
            | (None, tr1, state1) \<Rightarrow>
                if should_reset_cycle tr1
                then get_next_key cd (\<lambda>i. clock (Suc i)) (reset_cycle tr1) (rs(provider tr \<mapsto> state1))
                else (None, tr1, rs(provider tr \<mapsto> state1))))"
  by pat_completeness auto
termination
proof -
  have probe_None: "keys_tried_this_cycle tr' = keys_tried_this_cycle tr \<and> all_keys tr' = all_keys tr"
    if "(None, tr', st') = probe_keys cd t n tr st" for cd t n tr st tr' st'
    using that by (induction n arbitrary: tr) (auto simp: Let_def split: if_splits)
  show ?thesis
    apply (relation "measure (\<lambda>(cd, clock, tr, rs).
         if all_keys tr \<noteq> [] \<and> length (all_keys tr) \<le> fcard (keys_tried_this_cycle tr) then 1 else 0)")
     apply simp
    apply (auto simp: should_reset_cycle_def reset_cycle_def fcard_fempty dest!: probe_None)
    done
qed

declare get_next_key.simps [simp del]

text \<open>\<^verbatim>\<open>all_keys_in_cooldown\<close>: the loop over the keys, then the method.\<close>

fun cooldown_scan :: "cooldown_setting \<Rightarrow> real \<Rightarrow> KeyRotationState \<Rightarrow> string list \<Rightarrow> bool" where
  "cooldown_scan cd current_time state [] = True"
| "cooldown_scan cd current_time state (k # ks) =
     (case failed_keys state k of
        None \<Rightarrow> False
      | Some fail_time \<Rightarrow>
          if float_sub cd current_time fail_time \<ge> real_of_int (KEY_COOLDOWN_SECONDS cd) then False
          else cooldown_scan cd current_time state ks)"

definition all_keys_in_cooldown ::
  "cooldown_setting \<Rightarrow> real \<Rightarrow> KeyCycleTracker \<Rightarrow> rotation_state \<Rightarrow> bool \<times> rotation_state" where
  "all_keys_in_cooldown cd current_time tr rs =
     (if all_keys tr = [] then (True, rs)
      else if KEY_COOLDOWN_SECONDS cd \<le> 0 then (False, rs)
      else (cooldown_scan cd current_time (state_at rs (provider tr)) (all_keys tr),
            touch rs (provider tr)))"

subsection \<open>Module-level functions\<close>

definition mark_key_failed :: "string \<Rightarrow> string \<Rightarrow> real \<Rightarrow> rotation_state \<Rightarrow> rotation_state" where
  "mark_key_failed provider_name k current_time rs =
     (let state = state_at rs provider_name
      in rs(provider_name \<mapsto> state\<lparr>failed_keys := (failed_keys state)(k \<mapsto> current_time)\<rparr>))"

text \<open>\<^verbatim>\<open>KeyCycleTracker.mark_failed\<close> leaves the tracker as it is.\<close>

definition mark_failed :: "KeyCycleTracker \<Rightarrow> string \<Rightarrow> real \<Rightarrow> rotation_state \<Rightarrow> rotation_state" where
  "mark_failed tr k current_time rs = mark_key_failed (provider tr) k current_time rs"

definition exhausted :: "KeyCycleTracker \<Rightarrow> bool" where
  "exhausted tr =
     (if all_keys tr = [] then True
      else if current_cycle tr \<ge> max_cycles tr then True
      else if should_reset_cycle tr \<and> current_cycle tr + 1 \<ge> max_cycles tr then True
      else False)"

definition cycles_remaining :: "KeyCycleTracker \<Rightarrow> int" where
  "cycles_remaining tr = max 0 (max_cycles tr - current_cycle tr)"

definition total_keys :: "KeyCycleTracker \<Rightarrow> nat" where
  "total_keys tr = length (all_keys tr)"

text \<open>
  \<^verbatim>\<open>get_available_keys\<close> and \<^verbatim>\<open>get_all_keys\<close> take the rotation state along to show
  that they neither read nor write it.
\<close>

definition get_available_keys ::
  "provider_config \<Rightarrow> environ \<Rightarrow> string \<Rightarrow> rotation_state \<Rightarrow> string list \<times> rotation_state" where
  "get_available_keys cfg env provider_name rs = (parse_provider_keys cfg env provider_name, rs)"

definition get_all_keys ::
  "provider_config \<Rightarrow> environ \<Rightarrow> string \<Rightarrow> rotation_state \<Rightarrow> string list \<times> rotation_state" where
  "get_all_keys cfg env provider_name rs = (parse_provider_keys cfg env provider_name, rs)"

text \<open>The \<^verbatim>\<open>for offset in range(num_keys)\<close> loop of \<^verbatim>\<open>get_api_key\<close>.\<close>

fun api_key_scan ::
  "cooldown_setting \<Rightarrow> real \<Rightarrow> string list \<Rightarrow> KeyRotationState \<Rightarrow> nat list \<Rightarrow> string option \<times> KeyRotationState" where
  "api_key_scan cd current_time ks state [] = (None, state)"
| "api_key_scan cd current_time ks state (offset # rest) =
     (let next_index = (last_used_index state + 1 + int offset) mod int (length ks);
          candidate_key = ks ! nat next_index
      in case failed_keys state candidate_key of
           None \<Rightarrow> (Some candidate_key, state\<lparr>last_used_index := next_index\<rparr>)
         | Some fail_time \<Rightarrow>
             if KEY_COOLDOWN_SECONDS cd > 0 then
               (if float_sub cd current_time fail_time < real_of_int (KEY_COOLDOWN_SECONDS cd)
                then api_key_scan cd current_time ks state rest
                else (Some candidate_key,
                      state\<lparr>failed_keys := (failed_keys state)(candidate_key := None),
                            last_used_index := next_index\<rparr>))
             else (Some candidate_key, state\<lparr>last_used_index := next_index\<rparr>))"

definition get_api_key ::
  "provider_config \<Rightarrow> environ \<Rightarrow> cooldown_setting \<Rightarrow> real \<Rightarrow> string \<Rightarrow> rotation_state
     \<Rightarrow> string option \<times> rotation_state" where
  "get_api_key cfg env cd current_time provider_name rs =
     (let ks = parse_provider_keys cfg env provider_name
      in if ks = [] then (None, rs)
         else (case api_key_scan cd current_time ks (state_at rs provider_name) [0..<length ks] of
                 (r, state') \<Rightarrow> (r, rs(provider_name \<mapsto> state'))))"




definition get_rotation_state :: "string \<Rightarrow> rotation_state \<Rightarrow> KeyRotationState \<times> rotation_state" where
  "get_rotation_state provider_name rs = (state_at rs provider_name, touch rs provider_name)"

subsection \<open>Sequences of calls\<close>

text \<open>
  What a request does with one tracker: calls of \<^verbatim>\<open>get_next_key\<close> (each with the clock
  it reads) interleaved with calls of \<^verbatim>\<open>mark_failed\<close> (each with the time it records).
  \<open>run_calls\<close> gives the values returned by the \<^verbatim>\<open>get_next_key\<close> calls, in order.
\<close>

datatype tracker_call = Get_next_key "nat \<Rightarrow> real" | Mark_failed string real

fun run_calls ::
  "cooldown_setting \<Rightarrow> tracker_call list \<Rightarrow> KeyCycleTracker \<Rightarrow> rotation_state
     \<Rightarrow> string option list \<times> KeyCycleTracker \<times> rotation_state" where
  "run_calls cd [] tr rs = ([], tr, rs)"
| "run_calls cd (Get_next_key clock # calls) tr rs =
     (case get_next_key cd clock tr rs of
        (r, tr1, rs1) \<Rightarrow>
          (case run_calls cd calls tr1 rs1 of
             (res, tr2, rs2) \<Rightarrow> (r # res, tr2, rs2)))"
| "run_calls cd (Mark_failed k t # calls) tr rs = run_calls cd calls tr (mark_failed tr k t rs)"


text \<open>
  A key is in cooldown at a time when its failure entry exists and has not expired; this
  is the test that \<^verbatim>\<open>get_next_key\<close> and \<^verbatim>\<open>get_api_key\<close> make before they skip a key.
\<close>

definition in_cooldown :: "cooldown_setting \<Rightarrow> real \<Rightarrow> KeyRotationState \<Rightarrow> string \<Rightarrow> bool" where
  "in_cooldown cd current_time state k =
     (case failed_keys state k of
        None \<Rightarrow> False
      | Some fail_time \<Rightarrow> KEY_COOLDOWN_SECONDS cd > 0 \<and> float_sub cd current_time fail_time < real_of_int (KEY_COOLDOWN_SECONDS cd))"

subsection \<open>Concrete trackers and states used in the examples\<close>

text \<open>
  The examples use whole-number clock readings, whose binary64 difference is exact, a
  configuration without patterns and the default digit limit.
\<close>

definition exact_seconds :: "int \<Rightarrow> cooldown_setting" where
  "exact_seconds n = \<lparr>KEY_COOLDOWN_SECONDS = n, float_sub = (\<lambda>a b. a - b)\<rparr>"

definition no_config :: provider_config where
  "no_config = \<lparr>env_var_patterns = Map.empty, int_max_str_digits = 4300\<rparr>"

definition steady_clock :: "real \<Rightarrow> nat \<Rightarrow> real" where
  "steady_clock t i = t"

definition no_keys_tracker :: KeyCycleTracker where
  "no_keys_tracker = fst (KeyCycleTracker_init no_config [] 1 ''openai'' None Map.empty)"

definition env_AB :: environ where
  "env_AB = [(''OPENAI_API_KEY_1'', ''A''), (''OPENAI_API_KEY_2'', ''B'')]"

definition tracker_AB :: KeyCycleTracker where
  "tracker_AB = fst (KeyCycleTracker_init no_config env_AB 1 ''openai'' (Some 2) Map.empty)"

definition rotation_AB :: rotation_state where
  "rotation_AB = snd (KeyCycleTracker_init no_config env_AB 1 ''openai'' (Some 2) Map.empty)"

definition swept_AB :: KeyCycleTracker where
  "swept_AB = tracker_AB\<lparr>key_index := 1, keys_tried_this_cycle := {|''A'', ''B''|},
     keys_attempted := {|''A'', ''B''|}\<rparr>"

definition failed_AB :: rotation_state where
  "failed_AB = mark_key_failed ''openai'' ''B'' 2 (mark_key_failed ''openai'' ''A'' 1 rotation_AB)"

subsection \<open>The candidate that the probing loop looks at next\<close>

definition next_index :: "KeyCycleTracker \<Rightarrow> int" where
  "next_index tr = (key_index tr + 1) mod int (length (all_keys tr))"

definition next_candidate :: "KeyCycleTracker \<Rightarrow> string" where
  "next_candidate tr = all_keys tr ! nat (next_index tr)"

definition skipped :: "cooldown_setting \<Rightarrow> real \<Rightarrow> KeyCycleTracker \<Rightarrow> KeyRotationState \<Rightarrow> bool" where
  "skipped cd t tr st \<longleftrightarrow>
     next_candidate tr |\<in>| keys_tried_this_cycle tr \<or>
     (next_candidate tr |\<notin>| keys_attempted tr \<and> in_cooldown cd t st (next_candidate tr))"

text \<open>The number of calls in a run that returned a key.\<close>

definition successes :: "string option list \<Rightarrow> nat" where
  "successes res = length (filter (\<lambda>r. r \<noteq> None) res)"

definition calls_AB :: "tracker_call list" where
  "calls_AB = [Get_next_key (steady_clock 0), Mark_failed ''A'' 1, Get_next_key (steady_clock 2),
     Mark_failed ''B'' 3, Get_next_key (steady_clock 4), Get_next_key (steady_clock 5)]"

definition run_AB :: "string option list \<times> KeyCycleTracker \<times> rotation_state" where
  "run_AB = run_calls (exact_seconds 60) calls_AB tracker_AB rotation_AB"

definition first_AB :: "string option \<times> KeyCycleTracker \<times> rotation_state" where
  "first_AB = get_next_key (exact_seconds 60) (steady_clock 0) tracker_AB rotation_AB"

definition between_AB :: "string option list \<times> KeyCycleTracker \<times> rotation_state" where
  "between_AB = run_calls (exact_seconds 60) [Mark_failed ''A'' 1, Get_next_key (steady_clock 2), Mark_failed ''B'' 3]
     (fst (snd first_AB)) (snd (snd first_AB))"

definition again_AB :: "string option \<times> KeyCycleTracker \<times> rotation_state" where
  "again_AB = get_next_key (exact_seconds 60) (steady_clock 4) (fst (snd between_AB)) (snd (snd between_AB))"

subsection \<open>The key list as the description of the parser has it\<close>

text \<open>
  The values that the patterns contribute, in the order of the patterns; the parser is
  compared with this list, freed of empty values and deduplicated keeping first
  occurrences.
\<close>

definition keep_first :: "'a list \<Rightarrow> 'a list" where
  "keep_first xs = rev (remdups (rev xs))"

definition pattern_values :: "nat \<Rightarrow> environ \<Rightarrow> string \<Rightarrow> string list" where
  "pattern_values max_digits env pattern =
     (if contains_INDEX pattern then map snd (collect_indexed max_digits env pattern)
      else (case getenv env pattern of None \<Rightarrow> [] | Some v \<Rightarrow> [v]))"

definition candidate_values :: "provider_config \<Rightarrow> environ \<Rightarrow> string \<Rightarrow> string list" where
  "candidate_values cfg env provider_name =
     concat (map (pattern_values (int_max_str_digits cfg) env) (provider_patterns cfg provider_name))"

definition env_prefix :: "string \<Rightarrow> string" where
  "env_prefix provider_name = replace_hyphen (upper provider_name)"

definition cfg_indexed_first :: provider_config where
  "cfg_indexed_first =
     \<lparr>env_var_patterns = (\<lambda>provider_name. Some [''K_{INDEX}'', ''K'']), int_max_str_digits = 4300\<rparr>"

definition env_K :: environ where
  "env_K = [(''K'', ''A''), (''K_1'', ''B'')]"

definition env_S1 :: environ where
  "env_S1 = [(''OPENAI_API_KEY'', ''A''), (''OPENAI_API_KEY_1'', ''A''), (''OPENAI_API_KEY_2'', ''B'')]"

text \<open>The decimal value of a run of digits.\<close>

definition decimal :: "string \<Rightarrow> int" where
  "decimal ds = foldl (\<lambda>a c. 10 * a + (of_char c - 48)) 0 ds"


text \<open>
  The key that round-robin selection reaches \<open>j\<close> steps after index \<open>l\<close>: the key at
  index \<open>(l + j) mod len(keys)\<close>.
\<close>

definition rotation :: "string list \<Rightarrow> int \<Rightarrow> nat \<Rightarrow> string" where
  "rotation ks l j = ks ! nat ((l + int j) mod int (length ks))"


text \<open>
  The state of a tracker that has handed out \<open>j\<close> keys in rotation order, starting after
  index \<open>l0\<close>: what \<^verbatim>\<open>get_next_key\<close> maintains while every key is available.
\<close>

definition rr_state :: "int \<Rightarrow> nat \<Rightarrow> KeyCycleTracker \<Rightarrow> bool" where
  "rr_state l0 j tr \<longleftrightarrow>
     current_cycle tr * int (length (all_keys tr)) + int (fcard (keys_tried_this_cycle tr)) = int j \<and>
     0 \<le> current_cycle tr \<and>
     key_index tr = (if j = 0 then l0 else (l0 + int j) mod int (length (all_keys tr))) \<and>
     fset (keys_tried_this_cycle tr) =
       (\<lambda>i. rotation (all_keys tr) l0 (j - i)) ` {0..<fcard (keys_tried_this_cycle tr)} \<and>
     fset (keys_tried_this_cycle tr) \<subseteq> fset (keys_attempted tr) \<and>
     (current_cycle tr = 0 \<or> set (all_keys tr) \<subseteq> fset (keys_attempted tr))"

text \<open>
  The rotation state without the failure entry of key \<open>k\<close> of provider \<open>p\<close>, and a state
  in which the failure of \<open>A\<close> was recorded at time \<open>0\<close>.
\<close>

definition without_entry :: "string \<Rightarrow> string \<Rightarrow> rotation_state \<Rightarrow> rotation_state" where
  "without_entry p k rs =
     rs(p \<mapsto> (state_at rs p)\<lparr>failed_keys := (failed_keys (state_at rs p))(k := None)\<rparr>)"

definition expired_A :: rotation_state where
  "expired_A = mark_key_failed ''openai'' ''A'' 0 rotation_AB"

section \<open>Properties of the key manager\<close>

subsection \<open>Helper facts about the probing loop\<close>

lemma parse_AB: "parse_provider_keys no_config env_AB ''openai'' = [''A'', ''B'']"
  unfolding env_AB_def by code_simp

lemma tracker_AB_eq:
  "tracker_AB = \<lparr>provider = ''openai'', max_cycles = 2, current_cycle = 0,
     keys_tried_this_cycle = {||}, keys_attempted = {||}, all_keys = [''A'', ''B''], key_index = - 1\<rparr>"
  by (simp add: tracker_AB_def KeyCycleTracker_init_def parse_AB state_at_def KeyRotationState_default_def)

lemma rotation_AB_eq: "rotation_AB = [''openai'' \<mapsto> KeyRotationState_default]"
  by (simp add: rotation_AB_def KeyCycleTracker_init_def touch_def state_at_def)

lemma probe_next_attempted:
  assumes "k = all_keys tr ! nat ((key_index tr + 1) mod int (length (all_keys tr)))"
    and "k |\<in>| keys_attempted tr" and "k |\<notin>| keys_tried_this_cycle tr"
  shows "probe_keys cd t (Suc n) tr st =
     (Some k, tr\<lparr>key_index := (key_index tr + 1) mod int (length (all_keys tr)),
                 keys_tried_this_cycle := finsert k (keys_tried_this_cycle tr),
                 keys_attempted := finsert k (keys_attempted tr)\<rparr>,
      st\<lparr>last_used_index := (key_index tr + 1) mod int (length (all_keys tr))\<rparr>)"
  using assms by (simp add: Let_def)

lemma get_next_key_attempted:
  assumes "all_keys tr \<noteq> []" "current_cycle tr < max_cycles tr"
    and "k = all_keys tr ! nat ((key_index tr + 1) mod int (length (all_keys tr)))"
    and "k |\<in>| keys_attempted tr" and "k |\<notin>| keys_tried_this_cycle tr"
  shows "fst (get_next_key cd clock tr rs) = Some k"
    and "current_cycle (fst (snd (get_next_key cd clock tr rs))) = current_cycle tr"
proof -
  from assms(1) obtain n where n: "length (all_keys tr) = Suc n"
    by (cases "all_keys tr") auto
  show "fst (get_next_key cd clock tr rs) = Some k"
    "current_cycle (fst (snd (get_next_key cd clock tr rs))) = current_cycle tr"
    using assms(1,2) probe_next_attempted [OF assms(3,4,5), of cd "clock 0" n "state_at rs (provider tr)"]
    by (simp_all add: get_next_key.simps [of cd clock tr rs] n)
qed

lemma probe_all_tried:
  assumes "set (all_keys tr) \<subseteq> fset (keys_tried_this_cycle tr)" "all_keys tr \<noteq> []"
  shows "probe_keys cd t n tr st =
     (None, (if n = 0 then tr else tr\<lparr>key_index := (key_index tr + int n) mod int (length (all_keys tr))\<rparr>), st)"
  using assms
proof (induction n arbitrary: tr)
  case 0
  then show ?case by simp
next
  case (Suc n)
  let ?L = "int (length (all_keys tr))"
  let ?tr1 = "tr\<lparr>key_index := (key_index tr + 1) mod ?L\<rparr>"
  have L: "0 < ?L" using Suc.prems by simp
  then have "nat ((key_index tr + 1) mod ?L) < length (all_keys tr)"
    by (simp add: nat_less_iff)
  then have "all_keys tr ! nat ((key_index tr + 1) mod ?L) \<in> set (all_keys tr)"
    by simp
  with Suc.prems have tried: "all_keys tr ! nat ((key_index tr + 1) mod ?L) |\<in>| keys_tried_this_cycle tr"
    by auto
  have step: "probe_keys cd t (Suc n) tr st = probe_keys cd t n ?tr1 st"
    using tried by (simp add: Let_def)
  have "probe_keys cd t n ?tr1 st =
     (None, (if n = 0 then ?tr1 else ?tr1\<lparr>key_index := (key_index ?tr1 + int n) mod int (length (all_keys ?tr1))\<rparr>), st)"
    by (rule Suc.IH) (use Suc.prems in simp_all)
  moreover have "((key_index tr + 1) mod ?L + int n) mod ?L = (key_index tr + int (Suc n)) mod ?L"
    by (metis mod_add_left_eq add.assoc add.commute of_nat_Suc)
  ultimately show ?case
    unfolding step by (cases "n = 0") simp_all
qed

lemma swept_should_reset:
  assumes "set (all_keys tr) \<subseteq> fset (keys_tried_this_cycle tr)" "distinct (all_keys tr)"
  shows "should_reset_cycle tr"
proof -
  have "length (all_keys tr) = card (set (all_keys tr))"
    using assms(2) by (simp add: distinct_card)
  also have "\<dots> \<le> card (fset (keys_tried_this_cycle tr))"
    using assms(1) by (intro card_mono) simp_all
  finally show ?thesis
    by (simp add: should_reset_cycle_def fcard.rep_eq)
qed

lemma get_next_key_swept:
  assumes ne: "all_keys tr \<noteq> []" and cyc: "current_cycle tr + 1 < max_cycles tr"
    and k: "k = all_keys tr ! nat ((key_index tr + 1) mod int (length (all_keys tr)))"
    and att: "k |\<in>| keys_attempted tr"
    and sw: "set (all_keys tr) \<subseteq> fset (keys_tried_this_cycle tr)" and d: "distinct (all_keys tr)"
  shows "fst (get_next_key cd clock tr rs) = Some k"
    and "current_cycle (fst (snd (get_next_key cd clock tr rs))) = current_cycle tr + 1"
proof -
  let ?L = "int (length (all_keys tr))"
  let ?tr1 = "tr\<lparr>key_index := (key_index tr + ?L) mod ?L\<rparr>"
  let ?rs1 = "rs(provider tr \<mapsto> state_at rs (provider tr))"
  have len: "length (all_keys tr) \<noteq> 0" using ne by simp
  have p: "probe_keys cd (clock 0) (length (all_keys tr)) tr (state_at rs (provider tr)) =
      (None, ?tr1, state_at rs (provider tr))"
    using probe_all_tried [OF sw ne, of cd "clock 0" "length (all_keys tr)"] len by simp
  have r: "should_reset_cycle ?tr1"
    using swept_should_reset [OF sw d] by (simp add: should_reset_cycle_def)
  have unf: "get_next_key cd clock tr rs = get_next_key cd (\<lambda>i. clock (Suc i)) (reset_cycle ?tr1) ?rs1"
    using ne cyc p r by (simp add: get_next_key.simps [of cd clock tr rs])
  have k': "k = all_keys (reset_cycle ?tr1) !
      nat ((key_index (reset_cycle ?tr1) + 1) mod int (length (all_keys (reset_cycle ?tr1))))"
    using k by (simp add: reset_cycle_def mod_add_left_eq)
  have a: "all_keys (reset_cycle ?tr1) \<noteq> []" "current_cycle (reset_cycle ?tr1) < max_cycles (reset_cycle ?tr1)"
    "k |\<in>| keys_attempted (reset_cycle ?tr1)" "k |\<notin>| keys_tried_this_cycle (reset_cycle ?tr1)"
    using ne cyc att by (simp_all add: reset_cycle_def)
  show "fst (get_next_key cd clock tr rs) = Some k"
    unfolding unf by (rule get_next_key_attempted(1) [OF a(1,2) k' a(3,4)])
  show "current_cycle (fst (snd (get_next_key cd clock tr rs))) = current_cycle tr + 1"
    unfolding unf using get_next_key_attempted(2) [OF a(1,2) k' a(3,4)]
    by (simp add: reset_cycle_def)
qed

lemma scenario_S3:
  "fst (run_calls cd [Get_next_key c1, Mark_failed ''A'' t1, Get_next_key c2, Mark_failed ''B'' t2,
          Get_next_key c3, Get_next_key c4, Get_next_key c5] tracker_AB rotation_AB) =
     [Some ''A'', Some ''B'', Some ''A'', Some ''B'', None]"
  by (simp add: tracker_AB_eq rotation_AB_eq get_next_key.simps mark_failed_def mark_key_failed_def
      state_at_def KeyRotationState_default_def Let_def should_reset_cycle_def reset_cycle_def
      fcard_finsert_if fcard_fempty)

subsection \<open>C1: a key already attempted by the tracker is handed out again\<close>

text \<open>
  Claim C1. Within one tracker, a key that the tracker has already attempted is returned
  again whatever the provider's \<^verbatim>\<open>failed_keys\<close> hold: when the key is next in the rotation
  and either has not been tried in the running cycle (with \<open>current_cycle < max_cycles\<close>),
  or the running cycle has been swept and one more cycle is allowed, \<^verbatim>\<open>get_next_key\<close>
  returns it for every rotation state, cooldown and clock. With the two keys A and B,
  \<open>max_cycles = 2\<close> and \<open>last_used_index = -1\<close>, the calls \<^verbatim>\<open>get_next_key\<close>,
  \<^verbatim>\<open>mark_failed(A)\<close>, \<^verbatim>\<open>get_next_key\<close>, \<^verbatim>\<open>mark_failed(B)\<close> and three more
  \<^verbatim>\<open>get_next_key\<close> return A, B, A, B and nothing.
\<close>

theorem attempted_key_returned_again:
  "(all_keys tr \<noteq> [] \<and>
    k = all_keys tr ! nat ((key_index tr + 1) mod int (length (all_keys tr))) \<and>
    k |\<in>| keys_attempted tr \<and>
    ((k |\<notin>| keys_tried_this_cycle tr \<and> current_cycle tr < max_cycles tr) \<or>
     (set (all_keys tr) \<subseteq> fset (keys_tried_this_cycle tr) \<and> distinct (all_keys tr) \<and>
      current_cycle tr + 1 < max_cycles tr))
    \<longrightarrow> fst (get_next_key cd clock tr rs) = Some k) \<and>
   fst (run_calls cd [Get_next_key c1, Mark_failed ''A'' t1, Get_next_key c2, Mark_failed ''B'' t2,
          Get_next_key c3, Get_next_key c4, Get_next_key c5] tracker_AB rotation_AB) =
     [Some ''A'', Some ''B'', Some ''A'', Some ''B'', None]"
  using get_next_key_attempted(1) [of tr k cd clock rs] get_next_key_swept(1) [of tr k cd clock rs]
    scenario_S3 [of cd c1 t1 c2 t2 c3 c4 c5]
  by blast

theorem attempted_key_returned_again_witness:
  "all_keys swept_AB \<noteq> [] \<and> ''A'' |\<in>| keys_attempted swept_AB \<and>
   set (all_keys swept_AB) \<subseteq> fset (keys_tried_this_cycle swept_AB) \<and>
   current_cycle swept_AB + 1 < max_cycles swept_AB \<and>
   failed_keys (state_at failed_AB ''openai'') ''A'' = Some 1 \<and>
   fst (get_next_key (exact_seconds 60) (steady_clock 3) swept_AB failed_AB) = Some ''A''"
  using attempted_key_returned_again [of swept_AB "''A''" "exact_seconds 60" "steady_clock 3" failed_AB]
  by (simp add: swept_AB_def tracker_AB_eq failed_AB_def rotation_AB_eq mark_key_failed_def
      state_at_def KeyRotationState_default_def Let_def)

subsection \<open>C5: \<^verbatim>\<open>all_keys_in_cooldown\<close>\<close>

lemma cooldown_scan_iff:
  "0 < KEY_COOLDOWN_SECONDS cd \<Longrightarrow> cooldown_scan cd now st ks \<longleftrightarrow> (\<forall>k \<in> set ks. in_cooldown cd now st k)"
  by (induction ks) (auto simp: in_cooldown_def split: option.splits)

text \<open>
  Claim C5, as amended. \<^verbatim>\<open>all_keys_in_cooldown()\<close> returns true exactly when the key list
  is empty, or \<^verbatim>\<open>KEY_COOLDOWN_SECONDS\<close> is positive and every key has an unexpired failure
  entry. Hence with \<^verbatim>\<open>KEY_COOLDOWN_SECONDS \<le> 0\<close> it returns false exactly when the key
  list is not empty.
\<close>

theorem all_keys_in_cooldown_iff:
  "fst (all_keys_in_cooldown cd now tr rs) \<longleftrightarrow>
     all_keys tr = [] \<or>
     (0 < KEY_COOLDOWN_SECONDS cd \<and> (\<forall>k \<in> set (all_keys tr). in_cooldown cd now (state_at rs (provider tr)) k))"
  by (auto simp: all_keys_in_cooldown_def cooldown_scan_iff)

theorem all_keys_in_cooldown_iff_witness:
  "all_keys swept_AB \<noteq> [] \<and> fst (all_keys_in_cooldown (exact_seconds 60) 3 swept_AB failed_AB) \<and>
   \<not> fst (all_keys_in_cooldown (exact_seconds 60) 61 swept_AB failed_AB) \<and>
   \<not> fst (all_keys_in_cooldown (exact_seconds 0) 3 swept_AB failed_AB)"
  using all_keys_in_cooldown_iff [of "exact_seconds 60" 3 swept_AB failed_AB]
    all_keys_in_cooldown_iff [of "exact_seconds 60" 61 swept_AB failed_AB]
    all_keys_in_cooldown_iff [of "exact_seconds 0" 3 swept_AB failed_AB]
  by (simp add: swept_AB_def tracker_AB_eq failed_AB_def rotation_AB_eq mark_key_failed_def
      state_at_def KeyRotationState_default_def Let_def in_cooldown_def exact_seconds_def)

text \<open>
  The claim as stated fails on a tracker without keys: with cooldown disabled and no
  failure recorded, the method answers true.
\<close>

theorem all_keys_in_cooldown_empty_counterexample:
  "all_keys no_keys_tracker = [] \<and> fst (all_keys_in_cooldown (exact_seconds 0) 100 no_keys_tracker Map.empty)"
  by (simp add: no_keys_tracker_def KeyCycleTracker_init_def all_keys_in_cooldown_def
      parse_provider_keys_def provider_patterns_def default_patterns_def parse_pattern_def
      add_key_def getenv_def collect_indexed_def Let_def no_config_def)

subsection \<open>C10: the key lists do not depend on failures\<close>

text \<open>
  Claim C10. \<^verbatim>\<open>get_available_keys\<close> and \<^verbatim>\<open>get_all_keys\<close> both return the list of
  \<^verbatim>\<open>_parse_provider_keys\<close> for every rotation state and leave that state untouched;
  marking a key as failed changes the output of neither.
\<close>

theorem key_lists_ignore_failures:
  "get_available_keys cfg env p rs = (parse_provider_keys cfg env p, rs) \<and>
   get_all_keys cfg env p rs = (parse_provider_keys cfg env p, rs) \<and>
   fst (get_available_keys cfg env p (mark_key_failed q k t rs)) = fst (get_available_keys cfg env p rs) \<and>
   fst (get_all_keys cfg env p (mark_key_failed q k t rs)) = fst (get_all_keys cfg env p rs)"
  by (simp add: get_available_keys_def get_all_keys_def)

subsection \<open>One iteration of the probing loop, and the paths through \<^verbatim>\<open>get_next_key\<close>\<close>

lemma probe_keys_skip:
  assumes "skipped cd t tr st"
  shows "probe_keys cd t (Suc n) tr st = probe_keys cd t n (tr\<lparr>key_index := next_index tr\<rparr>) st"
proof (cases "next_candidate tr |\<in>| keys_tried_this_cycle tr")
  case True
  then show ?thesis
    by (simp add: Let_def next_candidate_def next_index_def)
next
  case False
  with assms have na: "next_candidate tr |\<notin>| keys_attempted tr"
    and ic: "in_cooldown cd t st (next_candidate tr)"
    by (simp_all add: skipped_def)
  from ic obtain ft where "failed_keys st (next_candidate tr) = Some ft" "0 < KEY_COOLDOWN_SECONDS cd" "float_sub cd t ft < real_of_int (KEY_COOLDOWN_SECONDS cd)"
    by (auto simp: in_cooldown_def split: option.splits)
  with False na show ?thesis
    by (simp add: Let_def next_candidate_def next_index_def)
qed

lemma probe_keys_accept:
  assumes "\<not> skipped cd t tr st"
  shows "probe_keys cd t (Suc n) tr st =
       (Some (next_candidate tr),
        tr\<lparr>key_index := next_index tr,
           keys_tried_this_cycle := finsert (next_candidate tr) (keys_tried_this_cycle tr),
           keys_attempted := finsert (next_candidate tr) (keys_attempted tr)\<rparr>,
        st\<lparr>last_used_index := next_index tr\<rparr>)"
proof -
  from assms have nt: "next_candidate tr |\<notin>| keys_tried_this_cycle tr"
    and d: "next_candidate tr |\<in>| keys_attempted tr \<or> \<not> in_cooldown cd t st (next_candidate tr)"
    by (auto simp: skipped_def)
  from d show ?thesis
  proof
    assume "next_candidate tr |\<in>| keys_attempted tr"
    with nt show ?thesis
      by (simp add: Let_def next_candidate_def next_index_def)
  next
    assume "\<not> in_cooldown cd t st (next_candidate tr)"
    then have "(case failed_keys st (next_candidate tr) of None \<Rightarrow> False
       | Some fail_time \<Rightarrow> 0 < KEY_COOLDOWN_SECONDS cd \<and> float_sub cd t fail_time < real_of_int (KEY_COOLDOWN_SECONDS cd)) = False"
      by (simp add: in_cooldown_def)
    with nt show ?thesis
      by (simp add: Let_def next_candidate_def next_index_def)
  qed
qed

lemma probe_keys_frame:
  "probe_keys cd t n tr st = (r, tr', st') \<Longrightarrow>
     provider tr' = provider tr \<and> all_keys tr' = all_keys tr \<and> max_cycles tr' = max_cycles tr \<and>
     current_cycle tr' = current_cycle tr \<and> failed_keys st' = failed_keys st"
proof (induction n arbitrary: tr)
  case 0
  then show ?case by simp
next
  case (Suc n)
  show ?case
  proof (cases "skipped cd t tr st")
    case True
    from Suc.prems have "probe_keys cd t n (tr\<lparr>key_index := next_index tr\<rparr>) st = (r, tr', st')"
      unfolding probe_keys_skip [OF True] .
    from Suc.IH [OF this] show ?thesis by simp
  next
    case False
    from Suc.prems show ?thesis
      unfolding probe_keys_accept [OF False] by auto
  qed
qed


lemma next_index_range:
  "all_keys tr \<noteq> [] \<Longrightarrow> 0 \<le> next_index tr \<and> nat (next_index tr) < length (all_keys tr)"
  by (simp add: next_index_def nat_less_iff)

lemma next_candidate_mem: "all_keys tr \<noteq> [] \<Longrightarrow> next_candidate tr \<in> set (all_keys tr)"
  using next_index_range [of tr] by (simp add: next_candidate_def)

lemma probe_keys_None:
  "probe_keys cd t n tr st = (None, tr', st') \<Longrightarrow>
     keys_tried_this_cycle tr' = keys_tried_this_cycle tr \<and>
     keys_attempted tr' = keys_attempted tr \<and> st' = st"
proof (induction n arbitrary: tr)
  case 0
  then show ?case by simp
next
  case (Suc n)
  show ?case
  proof (cases "skipped cd t tr st")
    case True
    from Suc.prems have "probe_keys cd t n (tr\<lparr>key_index := next_index tr\<rparr>) st = (None, tr', st')"
      unfolding probe_keys_skip [OF True] .
    from Suc.IH [OF this] show ?thesis by simp
  next
    case False
    from Suc.prems show ?thesis
      unfolding probe_keys_accept [OF False] by simp
  qed
qed

lemma probe_keys_Some:
  "probe_keys cd t n tr st = (Some k, tr', st') \<Longrightarrow>
     k |\<notin>| keys_tried_this_cycle tr \<and>
     keys_tried_this_cycle tr' = finsert k (keys_tried_this_cycle tr) \<and>
     keys_attempted tr' = finsert k (keys_attempted tr) \<and>
     st' = st\<lparr>last_used_index := key_index tr'\<rparr> \<and>
     k = all_keys tr ! nat (key_index tr') \<and>
     (all_keys tr \<noteq> [] \<longrightarrow> k \<in> set (all_keys tr)) \<and>
     (k |\<in>| keys_attempted tr \<or> \<not> in_cooldown cd t st k)"
proof (induction n arbitrary: tr)
  case 0
  then show ?case by simp
next
  case (Suc n)
  show ?case
  proof (cases "skipped cd t tr st")
    case True
    from Suc.prems have "probe_keys cd t n (tr\<lparr>key_index := next_index tr\<rparr>) st = (Some k, tr', st')"
      unfolding probe_keys_skip [OF True] .
    from Suc.IH [OF this] show ?thesis by auto
  next
    case False
    from Suc.prems have k: "k = next_candidate tr"
      and tr': "tr' = tr\<lparr>key_index := next_index tr,
           keys_tried_this_cycle := finsert (next_candidate tr) (keys_tried_this_cycle tr),
           keys_attempted := finsert (next_candidate tr) (keys_attempted tr)\<rparr>"
      and st': "st' = st\<lparr>last_used_index := next_index tr\<rparr>"
      unfolding probe_keys_accept [OF False] by auto
    from False have "next_candidate tr |\<notin>| keys_tried_this_cycle tr"
      "next_candidate tr |\<in>| keys_attempted tr \<or> \<not> in_cooldown cd t st (next_candidate tr)"
      by (auto simp: skipped_def)
    then show ?thesis
      using next_candidate_mem [of tr] by (simp add: k tr' st' next_candidate_def)
  qed
qed

lemma get_next_key_early:
  "all_keys tr = [] \<or> max_cycles tr \<le> current_cycle tr \<Longrightarrow> get_next_key cd clock tr rs = (None, tr, rs)"
  by (auto simp: get_next_key.simps [of cd clock tr rs])

lemma get_next_key_found:
  assumes "all_keys tr \<noteq> []" "current_cycle tr < max_cycles tr"
    and "probe_keys cd (clock 0) (length (all_keys tr)) tr (state_at rs (provider tr)) = (Some k, tr1, st1)"
  shows "get_next_key cd clock tr rs = (Some k, tr1, rs(provider tr \<mapsto> st1))"
  using assms by (simp add: get_next_key.simps [of cd clock tr rs])

lemma get_next_key_stuck:
  assumes "all_keys tr \<noteq> []" "current_cycle tr < max_cycles tr"
    and "probe_keys cd (clock 0) (length (all_keys tr)) tr (state_at rs (provider tr)) = (None, tr1, st1)"
    and "\<not> should_reset_cycle tr1"
  shows "get_next_key cd clock tr rs = (None, tr1, rs(provider tr \<mapsto> st1))"
  using assms by (simp add: get_next_key.simps [of cd clock tr rs])

lemma get_next_key_new_cycle:
  assumes "all_keys tr \<noteq> []" "current_cycle tr < max_cycles tr"
    and "probe_keys cd (clock 0) (length (all_keys tr)) tr (state_at rs (provider tr)) = (None, tr1, st1)"
    and "should_reset_cycle tr1"
  shows "get_next_key cd clock tr rs =
     get_next_key cd (\<lambda>i. clock (Suc i)) (reset_cycle tr1) (rs(provider tr \<mapsto> st1))"
  using assms by (simp add: get_next_key.simps [of cd clock tr rs])

text \<open>A call that does not start a new cycle.\<close>

lemma get_next_key_same_cycle:
  assumes g: "get_next_key cd clock tr rs = (r, tr', rs')" and nr: "\<not> should_reset_cycle tr"
  shows "provider tr' = provider tr \<and> all_keys tr' = all_keys tr \<and> max_cycles tr' = max_cycles tr \<and>
         current_cycle tr' = current_cycle tr"
    and "r = None \<Longrightarrow> keys_tried_this_cycle tr' = keys_tried_this_cycle tr \<and>
           keys_attempted tr' = keys_attempted tr"
    and "r = Some k \<Longrightarrow> k |\<notin>| keys_tried_this_cycle tr \<and>
           keys_tried_this_cycle tr' = finsert k (keys_tried_this_cycle tr) \<and>
           keys_attempted tr' = finsert k (keys_attempted tr) \<and>
           k \<in> set (all_keys tr) \<and> current_cycle tr < max_cycles tr"
proof -
  let ?p = "probe_keys cd (clock 0) (length (all_keys tr)) tr (state_at rs (provider tr))"
  obtain r1 tr1 st1 where p: "?p = (r1, tr1, st1)"
    by (cases ?p) auto
  note fr = probe_keys_frame [OF p]
  consider (early) "all_keys tr = [] \<or> max_cycles tr \<le> current_cycle tr"
    | (found) k1 where "all_keys tr \<noteq> []" "current_cycle tr < max_cycles tr" "r1 = Some k1"
    | (none) "all_keys tr \<noteq> []" "current_cycle tr < max_cycles tr" "r1 = None"
    by (cases r1; cases "all_keys tr = [] \<or> max_cycles tr \<le> current_cycle tr") auto
  then have "(provider tr' = provider tr \<and> all_keys tr' = all_keys tr \<and> max_cycles tr' = max_cycles tr \<and>
         current_cycle tr' = current_cycle tr) \<and>
      (r = None \<longrightarrow> keys_tried_this_cycle tr' = keys_tried_this_cycle tr \<and>
           keys_attempted tr' = keys_attempted tr) \<and>
      (r = Some k \<longrightarrow> k |\<notin>| keys_tried_this_cycle tr \<and>
           keys_tried_this_cycle tr' = finsert k (keys_tried_this_cycle tr) \<and>
           keys_attempted tr' = finsert k (keys_attempted tr) \<and>
           k \<in> set (all_keys tr) \<and> current_cycle tr < max_cycles tr)"
  proof cases
    case early
    from g show ?thesis unfolding get_next_key_early [OF early] by auto
  next
    case found
    from g have "r = Some k1" "tr' = tr1"
      unfolding get_next_key_found [where clock = clock, OF found(1,2) p [unfolded found(3)]] by simp_all
    with probe_keys_Some [OF p [unfolded found(3)]] fr found show ?thesis by auto
  next
    case none
    note pn = probe_keys_None [OF p [unfolded none(3)]]
    with nr fr have nr1: "\<not> should_reset_cycle tr1" by (simp add: should_reset_cycle_def)
    from g have "r = None" "tr' = tr1"
      unfolding get_next_key_stuck [where clock = clock, OF none(1,2) p [unfolded none(3)] nr1] by simp_all
    with pn fr show ?thesis by simp
  qed
  then show "provider tr' = provider tr \<and> all_keys tr' = all_keys tr \<and> max_cycles tr' = max_cycles tr \<and>
         current_cycle tr' = current_cycle tr"
    and "r = None \<Longrightarrow> keys_tried_this_cycle tr' = keys_tried_this_cycle tr \<and>
           keys_attempted tr' = keys_attempted tr"
    and "r = Some k \<Longrightarrow> k |\<notin>| keys_tried_this_cycle tr \<and>
           keys_tried_this_cycle tr' = finsert k (keys_tried_this_cycle tr) \<and>
           keys_attempted tr' = finsert k (keys_attempted tr) \<and>
           k \<in> set (all_keys tr) \<and> current_cycle tr < max_cycles tr"
    by blast+
qed

lemma reset_cycle_simps:
  "provider (reset_cycle tr) = provider tr" "all_keys (reset_cycle tr) = all_keys tr"
  "max_cycles (reset_cycle tr) = max_cycles tr" "current_cycle (reset_cycle tr) = current_cycle tr + 1"
  "keys_tried_this_cycle (reset_cycle tr) = {||}" "keys_attempted (reset_cycle tr) = keys_attempted tr"
  "key_index (reset_cycle tr) = key_index tr"
  by (simp_all add: reset_cycle_def)

lemma not_should_reset_fresh: "all_keys tr \<noteq> [] \<Longrightarrow> \<not> should_reset_cycle (reset_cycle tr)"
  by (simp add: should_reset_cycle_def reset_cycle_def fcard_fempty)

text \<open>What a call of \<^verbatim>\<open>get_next_key\<close> does to the tracker, on every path.\<close>

lemma get_next_key_effect:
  assumes g: "get_next_key cd clock tr rs = (r, tr', rs')"
  shows "provider tr' = provider tr \<and> all_keys tr' = all_keys tr \<and> max_cycles tr' = max_cycles tr"
    and "(current_cycle tr' = current_cycle tr \<and>
          (r = None \<longrightarrow> keys_tried_this_cycle tr' = keys_tried_this_cycle tr) \<and>
          (\<forall>k. r = Some k \<longrightarrow> k |\<notin>| keys_tried_this_cycle tr \<and>
                 keys_tried_this_cycle tr' = finsert k (keys_tried_this_cycle tr))) \<or>
         (current_cycle tr' = current_cycle tr + 1 \<and> should_reset_cycle tr \<and>
          all_keys tr \<noteq> [] \<and> current_cycle tr < max_cycles tr \<and>
          (r = None \<longrightarrow> keys_tried_this_cycle tr' = {||}) \<and>
          (\<forall>k. r = Some k \<longrightarrow> keys_tried_this_cycle tr' = {|k|}))"
    and "\<forall>k. r = Some k \<longrightarrow> k \<in> set (all_keys tr) \<and> current_cycle tr' < max_cycles tr \<and>
            keys_attempted tr' = finsert k (keys_attempted tr)"
    and "r = None \<longrightarrow> keys_attempted tr' = keys_attempted tr"
proof -
  let ?p = "probe_keys cd (clock 0) (length (all_keys tr)) tr (state_at rs (provider tr))"
  obtain r1 tr1 st1 where p: "?p = (r1, tr1, st1)"
    by (cases ?p) auto
  note fr = probe_keys_frame [OF p]
  let ?A = "provider tr' = provider tr \<and> all_keys tr' = all_keys tr \<and> max_cycles tr' = max_cycles tr"
  let ?B = "(current_cycle tr' = current_cycle tr \<and>
          (r = None \<longrightarrow> keys_tried_this_cycle tr' = keys_tried_this_cycle tr) \<and>
          (\<forall>k. r = Some k \<longrightarrow> k |\<notin>| keys_tried_this_cycle tr \<and>
                 keys_tried_this_cycle tr' = finsert k (keys_tried_this_cycle tr))) \<or>
         (current_cycle tr' = current_cycle tr + 1 \<and> should_reset_cycle tr \<and>
          all_keys tr \<noteq> [] \<and> current_cycle tr < max_cycles tr \<and>
          (r = None \<longrightarrow> keys_tried_this_cycle tr' = {||}) \<and>
          (\<forall>k. r = Some k \<longrightarrow> keys_tried_this_cycle tr' = {|k|}))"
  let ?C = "\<forall>k. r = Some k \<longrightarrow> k \<in> set (all_keys tr) \<and> current_cycle tr' < max_cycles tr \<and>
            keys_attempted tr' = finsert k (keys_attempted tr)"
  let ?D = "r = None \<longrightarrow> keys_attempted tr' = keys_attempted tr"
  have "?A \<and> ?B \<and> ?C \<and> ?D"
  proof (cases "all_keys tr \<noteq> [] \<and> current_cycle tr < max_cycles tr \<and> r1 = None \<and> should_reset_cycle tr1")
    case False
    have same: "provider tr' = provider tr \<and> all_keys tr' = all_keys tr \<and> max_cycles tr' = max_cycles tr \<and>
         current_cycle tr' = current_cycle tr \<and>
      (r = None \<longrightarrow> keys_tried_this_cycle tr' = keys_tried_this_cycle tr \<and>
           keys_attempted tr' = keys_attempted tr) \<and>
      (\<forall>k. r = Some k \<longrightarrow> k |\<notin>| keys_tried_this_cycle tr \<and>
           keys_tried_this_cycle tr' = finsert k (keys_tried_this_cycle tr) \<and>
           keys_attempted tr' = finsert k (keys_attempted tr) \<and>
           k \<in> set (all_keys tr) \<and> current_cycle tr < max_cycles tr)"
    proof (cases "all_keys tr = [] \<or> max_cycles tr \<le> current_cycle tr")
      case True
      from g show ?thesis unfolding get_next_key_early [OF True] by auto
    next
      case ne: False
      then have ne1: "all_keys tr \<noteq> []" and ne2: "current_cycle tr < max_cycles tr" by auto
      show ?thesis
      proof (cases r1)
        case None
        with False ne1 ne2 have nr1: "\<not> should_reset_cycle tr1" by simp
        note pn = probe_keys_None [OF p [unfolded None]]
        from g have "r = None" "tr' = tr1"
          unfolding get_next_key_stuck [where clock = clock, OF ne1 ne2 p [unfolded None] nr1] by simp_all
        with pn fr show ?thesis by simp
      next
        case (Some k1)
        from g have "r = Some k1" "tr' = tr1"
          unfolding get_next_key_found [where clock = clock, OF ne1 ne2 p [unfolded Some]] by simp_all
        with probe_keys_Some [OF p [unfolded Some]] fr ne1 ne2 show ?thesis by auto
      qed
    qed
    then show ?thesis by auto
  next
    case True
    then have ne1: "all_keys tr \<noteq> []" and ne2: "current_cycle tr < max_cycles tr"
      and r1: "r1 = None" and sr1: "should_reset_cycle tr1" by auto
    note pn = probe_keys_None [OF p [unfolded r1]]
    have sr: "should_reset_cycle tr"
      using sr1 pn fr by (simp add: should_reset_cycle_def)
    let ?tr2 = "reset_cycle tr1"
    from g have g2: "get_next_key cd (\<lambda>i. clock (Suc i)) ?tr2 (rs(provider tr \<mapsto> st1)) = (r, tr', rs')"
      unfolding get_next_key_new_cycle [where clock = clock, OF ne1 ne2 p [unfolded r1] sr1] .
    have "all_keys tr1 \<noteq> []" using ne1 fr by simp
    then have nr2: "\<not> should_reset_cycle ?tr2" by (rule not_should_reset_fresh)
    from get_next_key_same_cycle(1) [OF g2 nr2]
    have a: "provider tr' = provider tr \<and> all_keys tr' = all_keys tr \<and> max_cycles tr' = max_cycles tr \<and>
         current_cycle tr' = current_cycle tr + 1"
      using fr by (simp add: reset_cycle_simps)
    have b: "r = None \<longrightarrow> keys_tried_this_cycle tr' = {||} \<and> keys_attempted tr' = keys_attempted tr"
      using get_next_key_same_cycle(2) [OF g2 nr2] pn by (simp add: reset_cycle_simps)
    have c: "\<forall>k. r = Some k \<longrightarrow> keys_tried_this_cycle tr' = {|k|} \<and>
           keys_attempted tr' = finsert k (keys_attempted tr) \<and>
           k \<in> set (all_keys tr) \<and> current_cycle tr + 1 < max_cycles tr"
      using get_next_key_same_cycle(3) [OF g2 nr2] pn fr by (simp add: reset_cycle_simps)
    from a b c sr ne1 ne2 show ?thesis by auto
  qed
  then show ?A and ?B and ?C and ?D by blast+
qed

lemma get_next_key_cycle_mono:
  assumes "get_next_key cd clock tr rs = (r, tr', rs')"
  shows "current_cycle tr \<le> current_cycle tr' \<and>
         (current_cycle tr' = current_cycle tr \<longrightarrow>
            fset (keys_tried_this_cycle tr) \<subseteq> fset (keys_tried_this_cycle tr'))"
  using get_next_key_effect(2) [OF assms]
proof (elim disjE conjE)
  assume "current_cycle tr' = current_cycle tr"
    "r = None \<longrightarrow> keys_tried_this_cycle tr' = keys_tried_this_cycle tr"
    "\<forall>k. r = Some k \<longrightarrow> k |\<notin>| keys_tried_this_cycle tr \<and>
                 keys_tried_this_cycle tr' = finsert k (keys_tried_this_cycle tr)"
  then show ?thesis by (cases r) auto
next
  assume "current_cycle tr' = current_cycle tr + 1"
  then show ?thesis by simp
qed



lemma run_calls_Get:
  assumes "get_next_key cd clock tr rs = (r, tr1, rs1)" "run_calls cd calls tr1 rs1 = (res1, tr2, rs2)"
  shows "run_calls cd (Get_next_key clock # calls) tr rs = (r # res1, tr2, rs2)"
  using assms by simp

lemma run_calls_cycle_mono:
  "run_calls cd calls tr rs = (res, tr', rs') \<Longrightarrow>
     current_cycle tr \<le> current_cycle tr' \<and>
     (current_cycle tr' = current_cycle tr \<longrightarrow>
        fset (keys_tried_this_cycle tr) \<subseteq> fset (keys_tried_this_cycle tr'))"
proof (induction calls arbitrary: tr rs res)
  case Nil
  then show ?case by simp
next
  case (Cons c calls)
  show ?case
  proof (cases c)
    case (Get_next_key clock)
    obtain r tr1 rs1 where g: "get_next_key cd clock tr rs = (r, tr1, rs1)"
      by (cases "get_next_key cd clock tr rs") auto
    obtain res1 tr2 rs2 where rc: "run_calls cd calls tr1 rs1 = (res1, tr2, rs2)"
      by (cases "run_calls cd calls tr1 rs1") auto
    from Cons.prems have eq: "tr2 = tr'" "rs2 = rs'"
      unfolding Get_next_key run_calls_Get [OF g rc] by simp_all
    note a = get_next_key_cycle_mono [OF g] and b = Cons.IH [OF rc [unfolded eq]]
    from a b have le: "current_cycle tr \<le> current_cycle tr'" by simp
    moreover have "fset (keys_tried_this_cycle tr) \<subseteq> fset (keys_tried_this_cycle tr')"
      if "current_cycle tr' = current_cycle tr"
    proof -
      from that a b have "current_cycle tr1 = current_cycle tr" "current_cycle tr' = current_cycle tr1"
        by simp_all
      with a b show ?thesis by blast
    qed
    ultimately show ?thesis by blast
  next
    case (Mark_failed k t)
    with Cons.prems have "run_calls cd calls tr (mark_failed tr k t rs) = (res, tr', rs')" by simp
    from Cons.IH [OF this] show ?thesis .
  qed
qed

subsection \<open>Counting the keys handed out\<close>

lemma tried_card_le:
  assumes "fset (keys_tried_this_cycle tr) \<subseteq> set (all_keys tr)"
  shows "fcard (keys_tried_this_cycle tr) \<le> length (all_keys tr)"
proof -
  have "card (fset (keys_tried_this_cycle tr)) \<le> card (set (all_keys tr))"
    using assms by (intro card_mono) simp_all
  also have "\<dots> \<le> length (all_keys tr)" by (rule card_length)
  finally show ?thesis by (simp add: fcard.rep_eq)
qed

lemma swept_all_tried:
  assumes "fset (keys_tried_this_cycle tr) \<subseteq> set (all_keys tr)" "should_reset_cycle tr"
  shows "set (all_keys tr) \<subseteq> fset (keys_tried_this_cycle tr)"
proof -
  have "card (set (all_keys tr)) \<le> length (all_keys tr)" by (rule card_length)
  also have "\<dots> \<le> card (fset (keys_tried_this_cycle tr))"
    using assms(2) by (simp add: should_reset_cycle_def fcard.rep_eq)
  finally have "fset (keys_tried_this_cycle tr) = set (all_keys tr)"
    using assms(1) by (intro card_seteq) simp_all
  then show ?thesis by simp
qed

lemma get_next_key_potential:
  assumes g: "get_next_key cd clock tr rs = (r, tr', rs')"
    and inv: "fset (keys_tried_this_cycle tr) \<subseteq> set (all_keys tr)"
  shows "fset (keys_tried_this_cycle tr') \<subseteq> set (all_keys tr')"
    and "current_cycle tr' * int (length (all_keys tr')) + int (fcard (keys_tried_this_cycle tr')) =
         current_cycle tr * int (length (all_keys tr)) + int (fcard (keys_tried_this_cycle tr)) +
         (if r = None then 0 else 1)"
proof -
  note e = get_next_key_effect [OF g]
  from e(1) have ak: "all_keys tr' = all_keys tr" by simp
  from e(2) show "fset (keys_tried_this_cycle tr') \<subseteq> set (all_keys tr')"
  proof (elim disjE conjE)
    assume "r = None \<longrightarrow> keys_tried_this_cycle tr' = keys_tried_this_cycle tr"
      "\<forall>k. r = Some k \<longrightarrow> k |\<notin>| keys_tried_this_cycle tr \<and>
                 keys_tried_this_cycle tr' = finsert k (keys_tried_this_cycle tr)"
    with e(3) inv show ?thesis unfolding ak by (cases r) auto
  next
    assume "r = None \<longrightarrow> keys_tried_this_cycle tr' = {||}"
      "\<forall>k. r = Some k \<longrightarrow> keys_tried_this_cycle tr' = {|k|}"
    with e(3) show ?thesis unfolding ak by (cases r) auto
  qed
  from e(2) show "current_cycle tr' * int (length (all_keys tr')) + int (fcard (keys_tried_this_cycle tr')) =
         current_cycle tr * int (length (all_keys tr)) + int (fcard (keys_tried_this_cycle tr)) +
         (if r = None then 0 else 1)"
  proof (elim disjE conjE)
    assume "current_cycle tr' = current_cycle tr"
      "r = None \<longrightarrow> keys_tried_this_cycle tr' = keys_tried_this_cycle tr"
      "\<forall>k. r = Some k \<longrightarrow> k |\<notin>| keys_tried_this_cycle tr \<and>
                 keys_tried_this_cycle tr' = finsert k (keys_tried_this_cycle tr)"
    then show ?thesis unfolding ak by (cases r) (auto simp: fcard_finsert_if)
  next
    assume c: "current_cycle tr' = current_cycle tr + 1" and sr: "should_reset_cycle tr"
      and t: "r = None \<longrightarrow> keys_tried_this_cycle tr' = {||}"
      "\<forall>k. r = Some k \<longrightarrow> keys_tried_this_cycle tr' = {|k|}"
    from tried_card_le [OF inv] sr have n: "fcard (keys_tried_this_cycle tr) = length (all_keys tr)"
      by (simp add: should_reset_cycle_def)
    have "fcard (keys_tried_this_cycle tr') = (if r = None then 0 else 1)"
      using t by (cases r) (auto simp: fcard_fempty fcard_finsert_if)
    then show ?thesis unfolding ak c n by (simp add: algebra_simps)
  qed
qed

lemma run_calls_potential:
  "run_calls cd calls tr rs = (res, tr', rs') \<Longrightarrow>
   fset (keys_tried_this_cycle tr) \<subseteq> set (all_keys tr) \<Longrightarrow>
     all_keys tr' = all_keys tr \<and> max_cycles tr' = max_cycles tr \<and>
     fset (keys_tried_this_cycle tr') \<subseteq> set (all_keys tr') \<and>
     current_cycle tr' * int (length (all_keys tr')) + int (fcard (keys_tried_this_cycle tr')) =
       current_cycle tr * int (length (all_keys tr)) + int (fcard (keys_tried_this_cycle tr)) +
       int (successes res)"
proof (induction calls arbitrary: tr rs res)
  case Nil
  then show ?case by (simp add: successes_def)
next
  case (Cons c calls)
  show ?case
  proof (cases c)
    case (Get_next_key clock)
    obtain r tr1 rs1 where g: "get_next_key cd clock tr rs = (r, tr1, rs1)"
      by (cases "get_next_key cd clock tr rs") auto
    obtain res1 tr2 rs2 where rc: "run_calls cd calls tr1 rs1 = (res1, tr2, rs2)"
      by (cases "run_calls cd calls tr1 rs1") auto
    from Cons.prems(1) have eq: "tr2 = tr'" "rs2 = rs'" "res = r # res1"
      unfolding Get_next_key run_calls_Get [OF g rc] by simp_all
    note p = get_next_key_potential [OF g Cons.prems(2)]
    note e = get_next_key_effect(1) [OF g]
    note IH = Cons.IH [OF rc [unfolded eq] p(1)]
    have s: "int (successes res) = (if r = None then 0 else 1) + int (successes res1)"
      by (simp add: eq successes_def)
    from IH e have a: "all_keys tr' = all_keys tr" "max_cycles tr' = max_cycles tr"
      "fset (keys_tried_this_cycle tr') \<subseteq> set (all_keys tr')" by auto
    from IH have "current_cycle tr' * int (length (all_keys tr')) + int (fcard (keys_tried_this_cycle tr')) =
       current_cycle tr1 * int (length (all_keys tr1)) + int (fcard (keys_tried_this_cycle tr1)) +
       int (successes res1)" by blast
    with p(2) s have "current_cycle tr' * int (length (all_keys tr')) + int (fcard (keys_tried_this_cycle tr')) =
       current_cycle tr * int (length (all_keys tr)) + int (fcard (keys_tried_this_cycle tr)) +
       int (successes res)" by linarith
    with a show ?thesis by blast
  next
    case (Mark_failed k t)
    with Cons.prems have "run_calls cd calls tr (mark_failed tr k t rs) = (res, tr', rs')" by simp
    from Cons.IH [OF this Cons.prems(2)] show ?thesis .
  qed
qed


lemma exhausted_iff:
  "exhausted tr \<longleftrightarrow>
     all_keys tr = [] \<or> max_cycles tr \<le> current_cycle tr \<or>
     (length (all_keys tr) \<le> fcard (keys_tried_this_cycle tr) \<and> max_cycles tr \<le> current_cycle tr + 1)"
  by (auto simp: exhausted_def should_reset_cycle_def)

lemma exhausted_get_next_key:
  assumes inv: "fset (keys_tried_this_cycle tr) \<subseteq> set (all_keys tr)" and ex: "exhausted tr"
  shows "fst (get_next_key cd clock tr rs) = None"
proof (cases "all_keys tr = [] \<or> max_cycles tr \<le> current_cycle tr")
  case True
  then show ?thesis by (simp add: get_next_key_early)
next
  case False
  then have ne: "all_keys tr \<noteq> []" and lt: "current_cycle tr < max_cycles tr" by auto
  with ex have sr: "should_reset_cycle tr" and last: "max_cycles tr \<le> current_cycle tr + 1"
    by (auto simp: exhausted_def split: if_splits)
  let ?tr1 = "tr\<lparr>key_index := (key_index tr + int (length (all_keys tr))) mod int (length (all_keys tr))\<rparr>"
  have p: "probe_keys cd (clock 0) (length (all_keys tr)) tr (state_at rs (provider tr)) =
      (None, ?tr1, state_at rs (provider tr))"
    using probe_all_tried [OF swept_all_tried [OF inv sr] ne, of cd "clock 0" "length (all_keys tr)"] ne
    by simp
  have sr1: "should_reset_cycle ?tr1"
    using sr by (simp add: should_reset_cycle_def)
  have "max_cycles (reset_cycle ?tr1) \<le> current_cycle (reset_cycle ?tr1)"
    using last by (simp add: reset_cycle_def)
  then have "get_next_key cd (\<lambda>i. clock (Suc i)) (reset_cycle ?tr1)
      (rs(provider tr \<mapsto> state_at rs (provider tr))) =
      (None, reset_cycle ?tr1, rs(provider tr \<mapsto> state_at rs (provider tr)))"
    by (simp add: get_next_key_early)
  then show ?thesis
    unfolding get_next_key_new_cycle [where clock = clock, OF ne lt p sr1] by simp
qed

lemma exhausted_by_count:
  assumes inv: "fset (keys_tried_this_cycle tr) \<subseteq> set (all_keys tr)"
    and pot: "current_cycle tr * int (length (all_keys tr)) + int (fcard (keys_tried_this_cycle tr)) = int s"
    and enough: "max_cycles tr * int (length (all_keys tr)) \<le> int s"
  shows "exhausted tr"
proof (cases "all_keys tr = [] \<or> max_cycles tr \<le> current_cycle tr")
  case True
  then show ?thesis by (auto simp: exhausted_def)
next
  case False
  define n where "n = int (length (all_keys tr))"
  define t where "t = int (fcard (keys_tried_this_cycle tr))"
  define c where "c = current_cycle tr"
  define m where "m = max_cycles tr"
  from False have n: "0 < n" and cm: "c + 1 \<le> m" by (simp_all add: n_def c_def m_def)
  from tried_card_le [OF inv] have tn: "t \<le> n" by (simp add: t_def n_def)
  from pot enough have ge: "m * n \<le> c * n + t" by (simp add: n_def t_def c_def m_def)
  from cm n have "(c + 1) * n \<le> m * n" by (intro mult_right_mono) simp_all
  with ge have "(c + 1) * n \<le> c * n + t" by simp
  then have nt: "n \<le> t" by (simp add: algebra_simps)
  from ge tn have "m * n \<le> (c + 1) * n" by (simp add: algebra_simps)
  with n have "m \<le> c + 1" by simp
  with nt show ?thesis
    by (simp add: exhausted_def should_reset_cycle_def n_def t_def c_def m_def)
qed

lemma init_tracker:
  "KeyCycleTracker_init cfg env mc p mo rs0 = (tr0, rs1) \<Longrightarrow>
     keys_tried_this_cycle tr0 = {||} \<and> keys_attempted tr0 = {||} \<and> current_cycle tr0 = 0 \<and>
     all_keys tr0 = parse_provider_keys cfg env p \<and> provider tr0 = p \<and>
     key_index tr0 = last_used_index (state_at rs0 p) \<and>
     max_cycles tr0 = (case mo of None \<Rightarrow> mc | Some m \<Rightarrow> m)"
  by (auto simp: KeyCycleTracker_init_def)

lemmas eval_AB = tracker_AB_eq rotation_AB_eq get_next_key.simps mark_failed_def mark_key_failed_def exact_seconds_def
      state_at_def KeyRotationState_default_def Let_def should_reset_cycle_def reset_cycle_def
      fcard_finsert_if fcard_fempty steady_clock_def

subsection \<open>The key parser\<close>

lemma remdups_skip: "v \<in> set bs \<Longrightarrow> remdups (as @ v # bs) = remdups (as @ bs)"
  by (induction as) auto

lemma keep_first_skip: "v \<in> set xs \<Longrightarrow> keep_first (xs @ v # ys) = keep_first (xs @ ys)"
  by (simp add: keep_first_def remdups_skip)

lemma keep_first_distinct: "distinct xs \<Longrightarrow> keep_first xs = xs"
  by (simp add: keep_first_def distinct_remdups_id)

lemma distinct_keep_first: "distinct (keep_first xs)"
  by (simp add: keep_first_def)

lemma set_keep_first: "set (keep_first xs) = set xs"
  by (simp add: keep_first_def)

lemma fold_add_key:
  assumes "distinct ks" "[] \<notin> set ks"
  shows "fold (\<lambda>v. add_key (Some v)) vs (ks, set ks) =
     (keep_first (ks @ filter (\<lambda>v. v \<noteq> []) vs), set (ks @ filter (\<lambda>v. v \<noteq> []) vs))"
  using assms
proof (induction vs arbitrary: ks)
  case Nil
  then show ?case by (simp add: keep_first_distinct)
next
  case (Cons v vs)
  show ?case
  proof (cases "v \<noteq> [] \<and> v \<notin> set ks")
    case True
    then have "add_key (Some v) (ks, set ks) = (ks @ [v], set (ks @ [v]))"
      by (simp add: add_key_def)
    moreover have "distinct (ks @ [v])" "[] \<notin> set (ks @ [v])"
      using True Cons.prems by auto
    ultimately show ?thesis
      using Cons.IH [of "ks @ [v]"] True by simp
  next
    case False
    then have a: "add_key (Some v) (ks, set ks) = (ks, set ks)"
      by (auto simp: add_key_def)
    show ?thesis
    proof (cases "v = []")
      case True
      with a Cons.IH [OF Cons.prems] show ?thesis by simp
    next
      case nonempty: False
      with False have "v \<in> set ks" by simp
      with a Cons.IH [OF Cons.prems] nonempty show ?thesis
        by (simp add: keep_first_skip insert_absorb)
    qed
  qed
qed

lemma parse_pattern_fold:
  "parse_pattern md env ks pattern = fold (\<lambda>v. add_key (Some v)) (pattern_values md env pattern) ks"
proof -
  have "fold (\<lambda>(_, v). add_key (Some v)) xs ks = fold (\<lambda>v. add_key (Some v)) (map snd xs) ks"
    for xs :: "(int \<times> string) list"
    by (induction xs arbitrary: ks) (auto simp: case_prod_beta)
  then show ?thesis
    by (auto simp: parse_pattern_def pattern_values_def add_key_def split: option.splits)
qed

lemma parse_provider_keys_fold:
  "parse_provider_keys cfg env p =
     fst (fold (\<lambda>v. add_key (Some v)) (candidate_values cfg env p) ([], {}))"
proof -
  have "fold (\<lambda>pattern ks. parse_pattern md env ks pattern) ps ks =
        fold (\<lambda>v. add_key (Some v)) (concat (map (pattern_values md env) ps)) ks" for ps ks md
    by (induction ps arbitrary: ks) (simp_all add: parse_pattern_fold)
  then show ?thesis
    by (simp add: parse_provider_keys_def candidate_values_def)
qed

lemma parse_provider_keys_keep_first:
  "parse_provider_keys cfg env p = keep_first (filter (\<lambda>v. v \<noteq> []) (candidate_values cfg env p))"
  using fold_add_key [of "[]" "candidate_values cfg env p"]
  by (simp add: parse_provider_keys_fold)

lemma distinct_parse_provider_keys: "distinct (parse_provider_keys cfg env p)"
  by (simp add: parse_provider_keys_keep_first distinct_keep_first)

lemma nonempty_parse_provider_keys: "[] \<notin> set (parse_provider_keys cfg env p)"
  by (simp add: parse_provider_keys_keep_first set_keep_first)

lemma sorted_collect_indexed: "sorted (map fst (collect_indexed md env pattern))"
  by (simp add: collect_indexed_def)

lemma set_collect_indexed:
  "set (collect_indexed md env pattern) = set (collect_matches md pattern env)"
  by (simp add: collect_indexed_def)


lemma contains_INDEX_append_indexed: "contains_INDEX (s @ ''_API_KEY_{INDEX}'')"
  by (induction s) (simp_all add: INDEX_token_def)

lemma prefix_INDEX_append_literal:
  assumes "prefix INDEX_token (xs @ ''_API_KEY'')"
  shows "prefix INDEX_token xs"
proof (cases "length INDEX_token \<le> length xs")
  case True
  show ?thesis by (rule prefix_length_prefix [OF assms _ True]) simp
next
  case False
  then have l: "length xs < length INDEX_token" by simp
  from assms obtain zs where z: "xs @ ''_API_KEY'' = INDEX_token @ zs"
    by (auto simp: prefix_def)
  have "(xs @ ''_API_KEY'') ! length xs = CHR ''_''" by (simp add: nth_append)
  with z l have "INDEX_token ! length xs = CHR ''_''" by (simp add: nth_append)
  moreover from l have "INDEX_token ! length xs \<in> set INDEX_token" by (rule nth_mem)
  ultimately show ?thesis by (simp add: INDEX_token_def)
qed

lemma contains_INDEX_append_literal:
  "contains_INDEX (s @ ''_API_KEY'') = contains_INDEX s"
proof (induction s)
  case Nil
  show ?case by (simp add: INDEX_token_def)
next
  case (Cons c s)
  have "prefix INDEX_token (c # s @ ''_API_KEY'') = prefix INDEX_token (c # s)"
    using prefix_INDEX_append_literal [of "c # s"] prefix_prefix [of INDEX_token "c # s" "''_API_KEY''"]
    by auto
  with Cons show ?case by simp
qed

lemma default_candidate_values:
  assumes "env_var_patterns cfg p = None \<or> env_var_patterns cfg p = Some []"
    "\<not> contains_INDEX (env_prefix p)"
  shows "candidate_values cfg env p =
     (case getenv env (env_prefix p @ ''_API_KEY'') of None \<Rightarrow> [] | Some v \<Rightarrow> [v]) @
     map snd (collect_indexed (int_max_str_digits cfg) env (env_prefix p @ ''_API_KEY_{INDEX}''))"
proof -
  from assms(1) have "provider_patterns cfg p = [env_prefix p @ ''_API_KEY'', env_prefix p @ ''_API_KEY_{INDEX}'']"
    by (auto simp: provider_patterns_def default_patterns_def env_prefix_def Let_def)
  then show ?thesis
    using assms(2) contains_INDEX_append_indexed [of "env_prefix p"]
    by (simp add: candidate_values_def pattern_values_def contains_INDEX_append_literal)
qed

text \<open>Patterns with one \<^verbatim>\<open>{INDEX}\<close>: what matches, and with which index.\<close>

lemma contains_INDEX_iff: "contains_INDEX s \<longleftrightarrow> (\<exists>a b. s = a @ ''{INDEX}'' @ b)"
proof
  show "contains_INDEX s \<Longrightarrow> \<exists>a b. s = a @ ''{INDEX}'' @ b"
  proof (induction s)
    case Nil
    then show ?case by simp
  next
    case (Cons c cs)
    show ?case
    proof (cases "prefix INDEX_token (c # cs)")
      case True
      then obtain b where "c # cs = INDEX_token @ b" by (auto simp: prefix_def)
      then have "c # cs = [] @ ''{INDEX}'' @ b" by (simp add: INDEX_token_def)
      then show ?thesis by blast
    next
      case False
      with Cons.prems have "contains_INDEX cs" by simp
      from Cons.IH [OF this] obtain a b where "cs = a @ ''{INDEX}'' @ b" by blast
      then have "c # cs = (c # a) @ ''{INDEX}'' @ b" by simp
      then show ?thesis by blast
    qed
  qed
next
  assume "\<exists>a b. s = a @ ''{INDEX}'' @ b"
  then obtain a b where s: "s = a @ ''{INDEX}'' @ b" by blast
  show "contains_INDEX s"
    unfolding s by (induction a) (simp_all add: INDEX_token_def)
qed

lemma split_INDEX_none: "\<not> contains_INDEX s \<Longrightarrow> split_INDEX s = [s]"
  by (induction s) simp_all

lemma prefix_INDEX_straddle:
  assumes p: "prefix INDEX_token (xs @ INDEX_token @ ys)" and n: "\<not> prefix INDEX_token xs"
  shows "xs = []"
proof (rule ccontr)
  assume ne: "xs \<noteq> []"
  have l: "length xs < length INDEX_token"
  proof (rule ccontr)
    assume "\<not> length xs < length INDEX_token"
    then have "length INDEX_token \<le> length xs" by simp
    from prefix_length_prefix [OF p _ this] have "prefix INDEX_token xs" by simp
    with n show False by simp
  qed
  from p obtain zs where z: "xs @ INDEX_token @ ys = INDEX_token @ zs"
    by (auto simp: prefix_def)
  have "(xs @ INDEX_token @ ys) ! length xs = CHR ''{''"
    by (simp add: nth_append INDEX_token_def)
  with z l have a: "INDEX_token ! length xs = CHR ''{''" by (simp add: nth_append)
  from ne obtain m where m: "length xs = Suc m" by (cases xs) auto
  with l have "m < length (tl INDEX_token)" by (simp add: INDEX_token_def)
  then have "tl INDEX_token ! m \<in> set (tl INDEX_token)" by (rule nth_mem)
  moreover have "tl INDEX_token ! m = INDEX_token ! length xs"
    unfolding m by (simp add: INDEX_token_def)
  ultimately show False using a by (simp add: INDEX_token_def)
qed

lemma split_INDEX_single:
  "\<not> contains_INDEX pre \<Longrightarrow> \<not> contains_INDEX post \<Longrightarrow>
     split_INDEX (pre @ INDEX_token @ post) = [pre, post]"
proof (induction pre)
  case Nil
  have "split_INDEX (INDEX_token @ post) = [] # split_INDEX post"
    by (simp add: INDEX_token_def)
  with Nil show ?case by (simp add: split_INDEX_none)
next
  case (Cons c pre)
  from Cons.prems have np: "\<not> prefix INDEX_token (c # pre)" and nc: "\<not> contains_INDEX pre"
    by simp_all
  have "\<not> prefix INDEX_token ((c # pre) @ INDEX_token @ post)"
    using prefix_INDEX_straddle [of "c # pre" post] np by auto
  then have "split_INDEX ((c # pre) @ INDEX_token @ post) =
      (case split_INDEX (pre @ INDEX_token @ post) of [] \<Rightarrow> [[c]] | s # ss \<Rightarrow> (c # s) # ss)"
    by simp
  also have "\<dots> = [c # pre, post]"
    using Cons.IH [OF nc Cons.prems(2)] by simp
  finally show ?case .
qed

lemma rotate_eq:
  "xs @ [x] = a # xs \<Longrightarrow> a = x"
proof (induction xs arbitrary: a)
  case Nil
  then show ?case by simp
next
  case (Cons b xs)
  then have "b = a" "xs @ [x] = b # xs" by simp_all
  with Cons.IH show ?case by simp
qed

lemma digits_decomposition_unique:
  assumes eq: "ds @ p1 = g @ p2"
    and d: "\<forall>c \<in> set ds. is_digit c" "\<forall>c \<in> set g. is_digit c"
    and p1: "p1 = post \<or> p1 = post @ ''\<newline>''" and p2: "p2 = post \<or> p2 = post @ ''\<newline>''"
  shows "ds = g"
proof -
  have nl: "\<not> is_digit CHR ''\<newline>''" by (simp add: is_digit_def)
  have key: "u = w" if e: "u @ post = w @ post @ ''\<newline>''"
    and du: "\<forall>c \<in> set u. is_digit c" for u w
  proof -
    from e have "length u = Suc (length w)"
      by (metis add_Suc_right add_left_cancel length_append length_append_singleton add.commute)
    with e obtain x where u: "u = w @ [x]"
      by (metis append_eq_append_conv_if append_eq_conv_conj length_Suc_conv_rev
          append.assoc same_append_eq)
    with e have "post @ ''\<newline>'' = x # post" by simp
    from rotate_eq [OF this] have "x = CHR ''\<newline>''" by simp
    with u du nl show ?thesis by simp
  qed
  from p1 p2 consider "p1 = p2" | "p1 = post" "p2 = post @ ''\<newline>''"
    | "p1 = post @ ''\<newline>''" "p2 = post" by blast
  then show ?thesis
  proof cases
    case 1
    with eq show ?thesis by simp
  next
    case 2
    from key [OF eq [unfolded 2] d(1)] show ?thesis .
  next
    case 3
    from key [OF eq [unfolded 3, symmetric] d(2)] show ?thesis by simp
  qed
qed


lemma find_SomeD: "find P xs = Some x \<Longrightarrow> P x \<and> x \<in> set xs"
  by (induction xs) (auto split: if_splits)

lemma regex_group1_single:
  assumes sp: "split_INDEX pat = [pre, post]"
  shows "regex_group1 pat name = Some g \<longleftrightarrow>
     g \<noteq> [] \<and> (\<forall>c \<in> set g. is_digit c) \<and>
     (name = pre @ g @ post \<or> name = pre @ g @ post @ ''\<newline>'')"
proof
  assume r: "regex_group1 pat name = Some g"
  let ?r = "drop (length pre) name"
  let ?n = "length (takeWhile is_digit ?r)"
  from r sp have pre: "prefix pre name"
    by (auto simp: regex_group1_def split: if_splits)
  with r sp obtain k where f: "find (\<lambda>k. match_segs [post] (drop k ?r)) (rev [1..<Suc ?n]) = Some k"
    and g: "g = take k ?r"
    by (auto simp: regex_group1_def Let_def split: option.splits)
  from find_SomeD [OF f] have P: "match_segs [post] (drop k ?r)" and k: "k \<in> set (rev [1..<Suc ?n])"
    by blast+
  from k have k1: "1 \<le> k" and kn: "k \<le> ?n" by auto
  have "?r = takeWhile is_digit ?r @ dropWhile is_digit ?r" by simp
  then have "take k ?r = take k (takeWhile is_digit ?r)"
    using kn by (metis take_append diff_is_0_eq take_0 append_Nil2)
  then have dig: "\<forall>c \<in> set g. is_digit c"
    unfolding g by (metis in_set_takeD set_takeWhileD)
  have "?n \<le> length ?r" by (rule length_takeWhile_le)
  with k1 kn have "g \<noteq> []" unfolding g by auto
  have gne: "g \<noteq> []" by fact
  from pre have "name = pre @ ?r" by (auto simp: prefix_def)
  also have "?r = take k ?r @ drop k ?r" by (simp only: append_take_drop_id)
  finally have "name = pre @ g @ drop k ?r" unfolding g .
  with P have "name = pre @ g @ post \<or> name = pre @ g @ post @ ''\<newline>''" by auto
  with gne show "g \<noteq> [] \<and> (\<forall>c \<in> set g. is_digit c) \<and>
     (name = pre @ g @ post \<or> name = pre @ g @ post @ ''\<newline>'')"
    using dig by blast
next
  assume a: "g \<noteq> [] \<and> (\<forall>c \<in> set g. is_digit c) \<and>
     (name = pre @ g @ post \<or> name = pre @ g @ post @ ''\<newline>'')"
  then obtain p1 where name: "name = pre @ g @ p1" and p1: "p1 = post \<or> p1 = post @ ''\<newline>''"
    and gne: "g \<noteq> []" and dig: "\<forall>c \<in> set g. is_digit c"
    by auto
  let ?r = "drop (length pre) name"
  let ?n = "length (takeWhile is_digit ?r)"
  let ?P = "\<lambda>k. match_segs [post] (drop k ?r)"
  have r: "?r = g @ p1" by (simp add: name)
  have pre: "prefix pre name" by (simp add: name)
  have "takeWhile is_digit ?r = g @ takeWhile is_digit p1"
    unfolding r using dig by (simp add: takeWhile_append2)
  then have gn: "length g \<le> ?n" by simp
  from gne have "1 \<le> length g" by (cases g) auto
  with gn have mem: "length g \<in> set (rev [1..<Suc ?n])" by auto
  have Pg: "?P (length g)" unfolding r using p1 by auto
  from mem Pg have "find ?P (rev [1..<Suc ?n]) \<noteq> None"
    unfolding find_None_iff by blast
  then obtain k where f: "find ?P (rev [1..<Suc ?n]) = Some k" by auto
  from find_SomeD [OF this] have Pk: "?P k" and k: "k \<in> set (rev [1..<Suc ?n])"
    by blast+
  from k have kn: "k \<le> ?n" by auto
  have "?r = takeWhile is_digit ?r @ dropWhile is_digit ?r" by simp
  then have "take k ?r = take k (takeWhile is_digit ?r)"
    using kn by (metis take_append diff_is_0_eq take_0 append_Nil2)
  then have digk: "\<forall>c \<in> set (take k ?r). is_digit c"
    by (metis in_set_takeD set_takeWhileD)
  from Pk have p2: "drop k ?r = post \<or> drop k ?r = post @ ''\<newline>''" by simp
  have "g @ p1 = take k ?r @ drop k ?r" unfolding append_take_drop_id by (rule r [symmetric])
  from digits_decomposition_unique [OF this dig digk p1 p2] have "take k ?r = g" by simp
  with f pre sp show "regex_group1 pat name = Some g"
    by (simp add: regex_group1_def Let_def)
qed

lemma digit_val_of_char: "is_digit c \<Longrightarrow> digit_val c = Some (of_char c - 48)"
  by (auto simp: is_digit_def digit_val_def)

lemma py_int_acc_digits:
  "\<forall>c \<in> set ds. is_digit c \<Longrightarrow>
     py_int_acc acc ds = Some (foldl (\<lambda>a c. 10 * a + (of_char c - 48)) acc ds)"
  by (induction ds arbitrary: acc) (simp_all add: digit_val_of_char)

lemma py_int_digits:
  assumes "ds \<noteq> []" "\<forall>c \<in> set ds. is_digit c"
  shows "py_int md ds =
     (if 640 < length ds \<and> 0 < md \<and> md < length ds then None else Some (decimal ds))"
  using assms by (simp add: py_int_def py_int_acc_digits decimal_def)

lemma collect_matches_hit:
  assumes sp: "split_INDEX pat = [pre, post]"
    and ds: "ds \<noteq> []" "\<forall>c \<in> set ds. is_digit c"
    and name: "name = pre @ ds @ post \<or> name = pre @ ds @ post @ ''\<newline>''"
  shows "collect_matches md pat ((name, v) # rest) =
     (if 640 < length ds \<and> 0 < md \<and> md < length ds then [] else [(decimal ds, v)]) @
     collect_matches md pat rest"
proof -
  from regex_group1_single [OF sp, of name ds] ds name
  have "regex_group1 pat name = Some ds" by blast
  then show ?thesis by (simp add: py_int_digits [OF ds])
qed

lemma collect_matches_miss:
  assumes sp: "split_INDEX pat = [pre, post]"
    and no: "\<forall>ds. ds \<noteq> [] \<and> (\<forall>c \<in> set ds. is_digit c) \<longrightarrow>
               name \<noteq> pre @ ds @ post \<and> name \<noteq> pre @ ds @ post @ ''\<newline>''"
  shows "collect_matches md pat ((name, v) # rest) = collect_matches md pat rest"
proof (cases "regex_group1 pat name")
  case None
  then show ?thesis by simp
next
  case (Some g)
  with regex_group1_single [OF sp, of name g] no show ?thesis by blast
qed

lemma keep_first_Cons: "keep_first (x # xs) = x # keep_first (filter (\<lambda>y. y \<noteq> x) xs)"
proof -
  have a: "remdups (ys @ [x]) = filter (\<lambda>y. y \<noteq> x) (remdups ys) @ [x]" for ys
    by (induction ys) auto
  have "keep_first (x # xs) = x # filter (\<lambda>y. y \<noteq> x) (keep_first xs)"
    by (simp add: keep_first_def a rev_filter)
  also have "filter (\<lambda>y. y \<noteq> x) (keep_first xs) = keep_first (filter (\<lambda>y. y \<noteq> x) xs)"
    by (simp add: keep_first_def rev_filter remdups_filter)
  finally show ?thesis .
qed

lemma collect_indexed_stable:
  "filter (\<lambda>x. fst x = i) (collect_indexed md env pat) = filter (\<lambda>x. fst x = i) (collect_matches md pat env)"
  by (simp add: collect_indexed_def sort_key_stable)

lemma is_digit_iff: "is_digit c \<longleftrightarrow> c \<in> set ''0123456789''"
  by (simp add: is_digit_def)

lemma contains_INDEX_append_literal_underscore:
  "contains_INDEX (s @ ''_API_KEY_'') = contains_INDEX s"
proof (induction s)
  case Nil
  show ?case by (simp add: INDEX_token_def)
next
  case (Cons c s)
  have "prefix INDEX_token ((c # s) @ ''_API_KEY_'') \<Longrightarrow> prefix INDEX_token (c # s)"
  proof (cases "length INDEX_token \<le> length (c # s)")
    case True
    assume p: "prefix INDEX_token ((c # s) @ ''_API_KEY_'')"
    show ?thesis by (rule prefix_length_prefix [OF p _ True]) simp
  next
    case False
    assume p: "prefix INDEX_token ((c # s) @ ''_API_KEY_'')"
    from False have l: "length (c # s) < length INDEX_token" by simp
    from p obtain zs where z: "(c # s) @ ''_API_KEY_'' = INDEX_token @ zs"
      by (auto simp: prefix_def)
    have "((c # s) @ ''_API_KEY_'') ! length (c # s) = CHR ''_''" by (simp only: nth_append_length)
    with z l have "INDEX_token ! length (c # s) = CHR ''_''" by (simp add: nth_append)
    moreover from l have "INDEX_token ! length (c # s) \<in> set INDEX_token" by (rule nth_mem)
    ultimately show ?thesis by (simp add: INDEX_token_def)
  qed
  moreover have "prefix INDEX_token (c # s) \<Longrightarrow> prefix INDEX_token ((c # s) @ ''_API_KEY_'')"
    by (rule prefix_prefix)
  ultimately have "prefix INDEX_token (c # s @ ''_API_KEY_'') = prefix INDEX_token (c # s)"
    by auto
  with Cons show ?case by simp
qed


lemma provider_patterns_cases:
  "provider_patterns cfg p =
     (case env_var_patterns cfg p of
        Some (q # qs) \<Rightarrow> q # qs
      | _ \<Rightarrow> [env_prefix p @ ''_API_KEY'', env_prefix p @ ''_API_KEY_{INDEX}''])"
  by (simp add: provider_patterns_def default_patterns_def env_prefix_def Let_def
      split: option.splits list.splits)

lemma pattern_values_cases:
  "pattern_values md env pattern =
     (if \<exists>a b. pattern = a @ ''{INDEX}'' @ b then map snd (collect_indexed md env pattern)
      else (case map_of env pattern of None \<Rightarrow> [] | Some v \<Rightarrow> [v]))"
  by (simp add: pattern_values_def contains_INDEX_iff getenv_def)

lemma decimal_snoc: "decimal (ds @ [c]) = 10 * decimal ds + (of_char c - 48)"
  by (simp add: decimal_def)

subsection \<open>C4: the parsed key list\<close>

text \<open>
  Claim C4, as amended. \<^verbatim>\<open>_parse_provider_keys\<close> returns a list without duplicates and
  without empty strings: the values that the patterns contribute in the declared order of
  the patterns, with empty values dropped and later duplicates removed (\<open>keep_first\<close>). The
  patterns are the configured ones or, when there are none, the literal
  \<^verbatim>\<open>P_API_KEY\<close> followed by \<^verbatim>\<open>P_API_KEY_{INDEX}\<close>. A pattern without \<^verbatim>\<open>{INDEX}\<close>
  contributes the value of the variable of that name. A pattern with \<^verbatim>\<open>{INDEX}\<close>
  contributes the values of its matches, sorted by index, matches of equal index staying
  in the order of the environment. For a pattern with one \<^verbatim>\<open>{INDEX}\<close>, between \<open>pre\<close> and
  \<open>post\<close>, a variable matches when its name is \<open>pre\<close>, a non-empty run \<open>ds\<close> of decimal
  digits and \<open>post\<close> (a newline may follow), and \<open>int\<close> accepts the run; its index is the
  decimal value of \<open>ds\<close>. With no patterns configured and the environment
  \<^verbatim>\<open>OPENAI_API_KEY=A\<close>, \<^verbatim>\<open>OPENAI_API_KEY_1=A\<close>, \<^verbatim>\<open>OPENAI_API_KEY_2=B\<close> the result for
  \<^verbatim>\<open>openai\<close> is A, B.
\<close>

theorem parse_provider_keys_order:
  "distinct (parse_provider_keys cfg env p) \<and>
   [] \<notin> set (parse_provider_keys cfg env p) \<and>
   parse_provider_keys cfg env p = keep_first (filter (\<lambda>v. v \<noteq> []) (candidate_values cfg env p)) \<and>
   keep_first ([] :: string list) = [] \<and>
   keep_first (x # xs) = x # keep_first (filter (\<lambda>y. y \<noteq> x) xs) \<and>
   candidate_values cfg env p =
     concat (map (pattern_values (int_max_str_digits cfg) env) (provider_patterns cfg p)) \<and>
   provider_patterns cfg p =
     (case env_var_patterns cfg p of
        Some (q # qs) \<Rightarrow> q # qs
      | _ \<Rightarrow> [env_prefix p @ ''_API_KEY'', env_prefix p @ ''_API_KEY_{INDEX}'']) \<and>
   pattern_values md env pattern =
     (if \<exists>a b. pattern = a @ ''{INDEX}'' @ b then map snd (collect_indexed md env pattern)
      else (case map_of env pattern of None \<Rightarrow> [] | Some v \<Rightarrow> [v])) \<and>
   sorted (map fst (collect_indexed md env pattern)) \<and>
   (\<forall>i. filter (\<lambda>m. fst m = i) (collect_indexed md env pattern) =
        filter (\<lambda>m. fst m = i) (collect_matches md pattern env)) \<and>
   collect_matches md pattern [] = [] \<and>
   (\<not> (\<exists>a b. pre = a @ ''{INDEX}'' @ b) \<and> \<not> (\<exists>a b. post = a @ ''{INDEX}'' @ b) \<longrightarrow>
      (\<forall>name v rest ds.
          ds \<noteq> [] \<and> set ds \<subseteq> set ''0123456789'' \<and>
          (name = pre @ ds @ post \<or> name = pre @ ds @ post @ ''\<newline>'') \<longrightarrow>
            collect_matches md (pre @ ''{INDEX}'' @ post) ((name, v) # rest) =
              (if 640 < length ds \<and> 0 < md \<and> md < length ds then [] else [(decimal ds, v)]) @
              collect_matches md (pre @ ''{INDEX}'' @ post) rest) \<and>
      (\<forall>name v rest.
          (\<forall>ds. ds \<noteq> [] \<and> set ds \<subseteq> set ''0123456789'' \<longrightarrow>
                name \<noteq> pre @ ds @ post \<and> name \<noteq> pre @ ds @ post @ ''\<newline>'') \<longrightarrow>
            collect_matches md (pre @ ''{INDEX}'' @ post) ((name, v) # rest) =
              collect_matches md (pre @ ''{INDEX}'' @ post) rest)) \<and>
   decimal [] = 0 \<and>
   decimal (ds' @ [c]) = 10 * decimal ds' + (of_char c - 48) \<and>
   ((env_var_patterns cfg p = None \<or> env_var_patterns cfg p = Some []) \<and>
    \<not> (\<exists>a b. env_prefix p = a @ ''{INDEX}'' @ b) \<longrightarrow>
      parse_provider_keys cfg env p =
        keep_first (filter (\<lambda>v. v \<noteq> [])
          ((case map_of env (env_prefix p @ ''_API_KEY'') of None \<Rightarrow> [] | Some v \<Rightarrow> [v]) @
           map snd (collect_indexed (int_max_str_digits cfg) env (env_prefix p @ ''_API_KEY_{INDEX}'')))) \<and>
      \<not> (\<exists>a b. env_prefix p @ ''_API_KEY_'' = a @ ''{INDEX}'' @ b)) \<and>
   parse_provider_keys no_config env_S1 ''openai'' = [''A'', ''B'']"
proof -
  let ?pat = "pre @ ''{INDEX}'' @ post"
  have s1: "parse_provider_keys no_config env_S1 ''openai'' = [''A'', ''B'']"
    unfolding env_S1_def by code_simp
  have dflt: "(env_var_patterns cfg p = None \<or> env_var_patterns cfg p = Some []) \<and>
    \<not> (\<exists>a b. env_prefix p = a @ ''{INDEX}'' @ b) \<longrightarrow>
      parse_provider_keys cfg env p =
        keep_first (filter (\<lambda>v. v \<noteq> [])
          ((case map_of env (env_prefix p @ ''_API_KEY'') of None \<Rightarrow> [] | Some v \<Rightarrow> [v]) @
           map snd (collect_indexed (int_max_str_digits cfg) env (env_prefix p @ ''_API_KEY_{INDEX}'')))) \<and>
      \<not> (\<exists>a b. env_prefix p @ ''_API_KEY_'' = a @ ''{INDEX}'' @ b)"
  proof (intro impI)
    assume that: "(env_var_patterns cfg p = None \<or> env_var_patterns cfg p = Some []) \<and>
        \<not> (\<exists>a b. env_prefix p = a @ ''{INDEX}'' @ b)"
    then have n: "\<not> contains_INDEX (env_prefix p)" unfolding contains_INDEX_iff by (rule conjunct2)
    from that have c: "env_var_patterns cfg p = None \<or> env_var_patterns cfg p = Some []"
      by (rule conjunct1)
    from n have "\<not> contains_INDEX (env_prefix p @ ''_API_KEY_'')"
      by (simp add: contains_INDEX_append_literal_underscore)
    then have A: "\<not> (\<exists>a b. env_prefix p @ ''_API_KEY_'' = a @ ''{INDEX}'' @ b)"
      unfolding contains_INDEX_iff .
    have B: "parse_provider_keys cfg env p =
        keep_first (filter (\<lambda>v. v \<noteq> [])
          ((case map_of env (env_prefix p @ ''_API_KEY'') of None \<Rightarrow> [] | Some v \<Rightarrow> [v]) @
           map snd (collect_indexed (int_max_str_digits cfg) env (env_prefix p @ ''_API_KEY_{INDEX}''))))"
      unfolding parse_provider_keys_keep_first default_candidate_values [OF c n] getenv_def ..
    from B A show "parse_provider_keys cfg env p =
        keep_first (filter (\<lambda>v. v \<noteq> [])
          ((case map_of env (env_prefix p @ ''_API_KEY'') of None \<Rightarrow> [] | Some v \<Rightarrow> [v]) @
           map snd (collect_indexed (int_max_str_digits cfg) env (env_prefix p @ ''_API_KEY_{INDEX}'')))) \<and>
      \<not> (\<exists>a b. env_prefix p @ ''_API_KEY_'' = a @ ''{INDEX}'' @ b)"
      by (rule conjI)
  qed
  have pin: "\<not> (\<exists>a b. pre = a @ ''{INDEX}'' @ b) \<and> \<not> (\<exists>a b. post = a @ ''{INDEX}'' @ b) \<longrightarrow>
      (\<forall>name v rest ds.
          ds \<noteq> [] \<and> set ds \<subseteq> set ''0123456789'' \<and>
          (name = pre @ ds @ post \<or> name = pre @ ds @ post @ ''\<newline>'') \<longrightarrow>
            collect_matches md ?pat ((name, v) # rest) =
              (if 640 < length ds \<and> 0 < md \<and> md < length ds then [] else [(decimal ds, v)]) @
              collect_matches md ?pat rest) \<and>
      (\<forall>name v rest.
          (\<forall>ds. ds \<noteq> [] \<and> set ds \<subseteq> set ''0123456789'' \<longrightarrow>
                name \<noteq> pre @ ds @ post \<and> name \<noteq> pre @ ds @ post @ ''\<newline>'') \<longrightarrow>
            collect_matches md ?pat ((name, v) # rest) = collect_matches md ?pat rest)"
  proof (intro impI conjI allI)
    fix name v rest ds
    assume that: "\<not> (\<exists>a b. pre = a @ ''{INDEX}'' @ b) \<and> \<not> (\<exists>a b. post = a @ ''{INDEX}'' @ b)"
    then have "\<not> contains_INDEX pre" "\<not> contains_INDEX post"
      unfolding contains_INDEX_iff by (rule conjunct1, rule conjunct2)
    from split_INDEX_single [OF this] have sp: "split_INDEX ?pat = [pre, post]"
      by (simp add: INDEX_token_def)
    assume h: "ds \<noteq> [] \<and> set ds \<subseteq> set ''0123456789'' \<and>
          (name = pre @ ds @ post \<or> name = pre @ ds @ post @ ''\<newline>'')"
    from h have d1: "ds \<noteq> []" by (rule conjunct1)
    from h have "set ds \<subseteq> set ''0123456789''" by blast
    then have d2: "\<forall>c \<in> set ds. is_digit c" unfolding is_digit_def by blast
    from h have d3: "name = pre @ ds @ post \<or> name = pre @ ds @ post @ ''\<newline>''" by blast
    show "collect_matches md ?pat ((name, v) # rest) =
              (if 640 < length ds \<and> 0 < md \<and> md < length ds then [] else [(decimal ds, v)]) @
              collect_matches md ?pat rest"
      by (rule collect_matches_hit [OF sp d1 d2 d3])
  next
    fix name v rest
    assume that: "\<not> (\<exists>a b. pre = a @ ''{INDEX}'' @ b) \<and> \<not> (\<exists>a b. post = a @ ''{INDEX}'' @ b)"
    then have "\<not> contains_INDEX pre" "\<not> contains_INDEX post"
      unfolding contains_INDEX_iff by (rule conjunct1, rule conjunct2)
    from split_INDEX_single [OF this] have sp: "split_INDEX ?pat = [pre, post]"
      by (simp add: INDEX_token_def)
    assume h: "\<forall>ds. ds \<noteq> [] \<and> set ds \<subseteq> set ''0123456789'' \<longrightarrow>
                name \<noteq> pre @ ds @ post \<and> name \<noteq> pre @ ds @ post @ ''\<newline>''"
    have "\<forall>ds. ds \<noteq> [] \<and> (\<forall>c \<in> set ds. is_digit c) \<longrightarrow>
               name \<noteq> pre @ ds @ post \<and> name \<noteq> pre @ ds @ post @ ''\<newline>''"
    proof (intro allI impI)
      fix ds assume "ds \<noteq> [] \<and> (\<forall>c \<in> set ds. is_digit c)"
      then have "ds \<noteq> [] \<and> set ds \<subseteq> set ''0123456789''" unfolding is_digit_def by blast
      with h show "name \<noteq> pre @ ds @ post \<and> name \<noteq> pre @ ds @ post @ ''\<newline>''" by blast
    qed
    then show "collect_matches md ?pat ((name, v) # rest) = collect_matches md ?pat rest"
      by (rule collect_matches_miss [OF sp])
  qed
  have k0: "keep_first ([] :: string list) = []" by (simp add: keep_first_def)
  have d0: "decimal [] = 0" by (simp add: decimal_def)
  have cm0: "collect_matches md pattern [] = []" by simp
  have cv: "candidate_values cfg env p =
     concat (map (pattern_values (int_max_str_digits cfg) env) (provider_patterns cfg p))"
    by (simp add: candidate_values_def)
  have st: "\<forall>i. filter (\<lambda>m. fst m = i) (collect_indexed md env pattern) =
        filter (\<lambda>m. fst m = i) (collect_matches md pattern env)"
    by (intro allI) (rule collect_indexed_stable)
  show ?thesis
    by (intro conjI distinct_parse_provider_keys nonempty_parse_provider_keys
        parse_provider_keys_keep_first k0 keep_first_Cons cv provider_patterns_cases
        pattern_values_cases sorted_collect_indexed st cm0 pin d0 decimal_snoc dflt s1)
qed

theorem parse_provider_keys_order_witness:
  "env_var_patterns no_config ''openai'' = None \<and> env_prefix ''openai'' = ''OPENAI'' \<and>
   collect_matches 4300 ''OPENAI_API_KEY_{INDEX}'' [(''OPENAI_API_KEY_12'', ''B'')] = [(12, ''B'')] \<and>
   collect_matches 4300 ''OPENAI_API_KEY_{INDEX}'' [(''OPENAI_API_KEY'', ''A'')] = [] \<and>
   map_of env_S1 ''OPENAI_API_KEY'' = Some ''A'' \<and>
   collect_indexed 4300 env_S1 ''OPENAI_API_KEY_{INDEX}'' = [(1, ''A''), (2, ''B'')] \<and>
   parse_provider_keys no_config env_S1 ''openai'' = keep_first [''A'', ''A'', ''B'']"
proof -
  note T = parse_provider_keys_order [where cfg = no_config and env = env_S1 and p = "''openai''"
      and md = 4300 and pre = "''OPENAI_API_KEY_''" and post = "[]"]
  note pin = T [THEN conjunct2, THEN conjunct2, THEN conjunct2, THEN conjunct2, THEN conjunct2,
      THEN conjunct2, THEN conjunct2, THEN conjunct2, THEN conjunct2, THEN conjunct2,
      THEN conjunct2, THEN conjunct1]
  note dflt = T [THEN conjunct2, THEN conjunct2, THEN conjunct2, THEN conjunct2, THEN conjunct2,
      THEN conjunct2, THEN conjunct2, THEN conjunct2, THEN conjunct2, THEN conjunct2,
      THEN conjunct2, THEN conjunct2, THEN conjunct2, THEN conjunct2, THEN conjunct1]
  have a: "env_prefix ''openai'' = ''OPENAI''"
    by (simp add: env_prefix_def upper_def upper_char_def replace_hyphen_def)
  have n: "env_var_patterns no_config ''openai'' = None" by (simp add: no_config_def)
  have b1: "\<not> contains_INDEX ''OPENAI''" and b2: "\<not> contains_INDEX ''OPENAI_API_KEY_''"
    and b3: "\<not> contains_INDEX []"
    by (simp_all add: INDEX_token_def)
  have c: "map_of env_S1 ''OPENAI_API_KEY'' = Some ''A''"
    by (simp add: env_S1_def)
  have d: "collect_indexed 4300 env_S1 ''OPENAI_API_KEY_{INDEX}'' = [(1, ''A''), (2, ''B'')]"
    unfolding env_S1_def by code_simp
  from pin b2 b3
  have hit: "\<forall>name v rest ds.
          ds \<noteq> [] \<and> set ds \<subseteq> set ''0123456789'' \<and>
          (name = ''OPENAI_API_KEY_'' @ ds @ [] \<or> name = ''OPENAI_API_KEY_'' @ ds @ [] @ ''\<newline>'') \<longrightarrow>
            collect_matches 4300 (''OPENAI_API_KEY_'' @ ''{INDEX}'' @ []) ((name, v) # rest) =
              (if 640 < length ds \<and> 0 < (4300::nat) \<and> 4300 < length ds then [] else [(decimal ds, v)]) @
              collect_matches 4300 (''OPENAI_API_KEY_'' @ ''{INDEX}'' @ []) rest"
    and miss: "\<forall>name v rest.
          (\<forall>ds. ds \<noteq> [] \<and> set ds \<subseteq> set ''0123456789'' \<longrightarrow>
                name \<noteq> ''OPENAI_API_KEY_'' @ ds @ [] \<and> name \<noteq> ''OPENAI_API_KEY_'' @ ds @ [] @ ''\<newline>'') \<longrightarrow>
            collect_matches 4300 (''OPENAI_API_KEY_'' @ ''{INDEX}'' @ []) ((name, v) # rest) =
              collect_matches 4300 (''OPENAI_API_KEY_'' @ ''{INDEX}'' @ []) rest"
    unfolding contains_INDEX_iff by blast+
  from hit [THEN spec [where x = "''OPENAI_API_KEY_12''"], THEN spec [where x = "''B''"],
      THEN spec [where x = "[]"], THEN spec [where x = "''12''"]]
  have e: "collect_matches 4300 ''OPENAI_API_KEY_{INDEX}'' [(''OPENAI_API_KEY_12'', ''B'')] = [(12, ''B'')]"
    by (simp add: decimal_def)
  have "\<forall>ds. ds \<noteq> [] \<and> set ds \<subseteq> set ''0123456789'' \<longrightarrow>
      ''OPENAI_API_KEY'' \<noteq> ''OPENAI_API_KEY_'' @ ds @ [] \<and>
      ''OPENAI_API_KEY'' \<noteq> ''OPENAI_API_KEY_'' @ ds @ [] @ ''\<newline>''"
    by simp
  with miss [THEN spec [where x = "''OPENAI_API_KEY''"], THEN spec [where x = "''A''"],
      THEN spec [where x = "[]"]]
  have f: "collect_matches 4300 ''OPENAI_API_KEY_{INDEX}'' [(''OPENAI_API_KEY'', ''A'')] = []"
    by simp
  from dflt n b1
  have "parse_provider_keys no_config env_S1 ''openai'' =
        keep_first (filter (\<lambda>v. v \<noteq> [])
          ((case map_of env_S1 (env_prefix ''openai'' @ ''_API_KEY'') of None \<Rightarrow> [] | Some v \<Rightarrow> [v]) @
           map snd (collect_indexed (int_max_str_digits no_config) env_S1
                      (env_prefix ''openai'' @ ''_API_KEY_{INDEX}''))))"
    unfolding a contains_INDEX_iff by blast
  then have g: "parse_provider_keys no_config env_S1 ''openai'' = keep_first [''A'', ''A'', ''B'']"
    unfolding a by (simp add: no_config_def c d)
  from n a e f c d g show ?thesis by blast
qed

text \<open>
  The claim as stated fails when the configuration declares an \<^verbatim>\<open>{INDEX}\<close> pattern before
  a literal one: the key of the indexed variable then comes first.
\<close>

theorem parse_provider_keys_indexed_first_counterexample:
  "env_var_patterns cfg_indexed_first ''p'' = Some [''K_{INDEX}'', ''K''] \<and>
   map_of env_K ''K'' = Some ''A'' \<and>
   collect_indexed 4300 env_K ''K_{INDEX}'' = [(1, ''B'')] \<and>
   parse_provider_keys cfg_indexed_first env_K ''p'' = [''B'', ''A'']"
proof -
  have "collect_indexed 4300 env_K ''K_{INDEX}'' = [(1, ''B'')]"
    unfolding env_K_def by code_simp
  moreover have "parse_provider_keys cfg_indexed_first env_K ''p'' = [''B'', ''A'']"
    unfolding env_K_def cfg_indexed_first_def by code_simp
  ultimately show ?thesis
    by (simp add: cfg_indexed_first_def env_K_def)
qed

subsection \<open>C7: no key twice in one cycle\<close>

text \<open>
  Claim C7. Whatever calls of \<^verbatim>\<open>get_next_key\<close> and \<^verbatim>\<open>mark_failed\<close> a tracker sees, two
  calls of \<^verbatim>\<open>get_next_key\<close> that return the same key are separated by a cycle reset:
  \<open>current_cycle\<close> after the later call is larger than after the earlier one (it is
  only ever changed by \<^verbatim>\<open>_reset_cycle\<close>, which also clears the set of keys tried).
\<close>

theorem no_key_twice_in_a_cycle:
  assumes "get_next_key cd c1 tr rs = (Some k, tr1, rs1)"
    and "run_calls cd calls tr1 rs1 = (res, tr2, rs2)"
    and "get_next_key cd c2 tr2 rs2 = (Some k, tr3, rs3)"
  shows "current_cycle tr1 < current_cycle tr3"
proof -
  from get_next_key_effect(2) [OF assms(1)] have k1: "k |\<in>| keys_tried_this_cycle tr1"
    by auto
  note m = run_calls_cycle_mono [OF assms(2)]
  from get_next_key_effect(2) [OF assms(3)]
  consider "current_cycle tr3 = current_cycle tr2" "k |\<notin>| keys_tried_this_cycle tr2"
    | "current_cycle tr3 = current_cycle tr2 + 1"
    by auto
  then show ?thesis
  proof cases
    case 1
    with k1 m have "current_cycle tr2 \<noteq> current_cycle tr1" by auto
    with m 1 show ?thesis by simp
  next
    case 2
    with m show ?thesis by simp
  qed
qed

theorem no_key_twice_in_a_cycle_witness:
  "fst first_AB = Some ''A'' \<and> fst again_AB = Some ''A'' \<and>
   current_cycle (fst (snd first_AB)) < current_cycle (fst (snd again_AB))"
proof -
  have a: "fst first_AB = Some ''A''"
    unfolding first_AB_def by (simp add: eval_AB)
  have b: "fst again_AB = Some ''A''"
    unfolding again_AB_def between_AB_def first_AB_def by (simp add: eval_AB)
  have 1: "get_next_key (exact_seconds 60) (steady_clock 0) tracker_AB rotation_AB =
      (Some ''A'', fst (snd first_AB), snd (snd first_AB))"
    using a by (simp add: first_AB_def prod_eq_iff)
  have 2: "run_calls (exact_seconds 60) [Mark_failed ''A'' 1, Get_next_key (steady_clock 2), Mark_failed ''B'' 3]
     (fst (snd first_AB)) (snd (snd first_AB)) = (fst between_AB, fst (snd between_AB), snd (snd between_AB))"
    by (simp add: between_AB_def)
  have 3: "get_next_key (exact_seconds 60) (steady_clock 4) (fst (snd between_AB)) (snd (snd between_AB)) =
      (Some ''A'', fst (snd again_AB), snd (snd again_AB))"
    using b by (simp add: again_AB_def prod_eq_iff)
  from no_key_twice_in_a_cycle [OF 1 2 3] a b show ?thesis by simp
qed

subsection \<open>C8: exhaustion\<close>

text \<open>
  Claim C8. For a tracker made by the constructor and then used for any calls:
  \<^verbatim>\<open>exhausted()\<close> holds exactly when the key list is empty, or
  \<open>current_cycle \<ge> max_cycles\<close>, or the running cycle is swept (every key has been
  tried in it) and one more cycle would reach \<open>max_cycles\<close>; once
  \<open>max_cycles * len(keys)\<close> calls of \<^verbatim>\<open>get_next_key\<close> have returned a key it holds; and
  when it holds, \<^verbatim>\<open>get_next_key\<close> returns nothing.
\<close>

theorem exhausted_within_bound:
  assumes init: "KeyCycleTracker_init cfg env mc p mo rs0 = (tr0, rs1)"
    and run: "run_calls cd calls tr0 rs = (res, tr, rs')"
  shows "(exhausted tr \<longleftrightarrow>
           all_keys tr = [] \<or> max_cycles tr \<le> current_cycle tr \<or>
           (should_reset_cycle tr \<and> max_cycles tr \<le> current_cycle tr + 1)) \<and>
         (max_cycles tr0 * int (length (all_keys tr0)) \<le> int (successes res) \<longrightarrow> exhausted tr) \<and>
         (exhausted tr \<longrightarrow> fst (get_next_key cd clock tr rs2) = None) \<and>
         (should_reset_cycle tr \<longleftrightarrow> set (all_keys tr) \<subseteq> fset (keys_tried_this_cycle tr))"
proof -
  from init_tracker [OF init] have i: "keys_tried_this_cycle tr0 = {||}" "current_cycle tr0 = 0"
    by simp_all
  then have inv0: "fset (keys_tried_this_cycle tr0) \<subseteq> set (all_keys tr0)" by simp
  note rp = run_calls_potential [OF run inv0]
  then have inv: "fset (keys_tried_this_cycle tr) \<subseteq> set (all_keys tr)"
    and pot: "current_cycle tr * int (length (all_keys tr)) + int (fcard (keys_tried_this_cycle tr)) =
       int (successes res)"
    and fr: "all_keys tr = all_keys tr0" "max_cycles tr = max_cycles tr0"
    using i by (auto simp: fcard_fempty)
  have a: "exhausted tr \<longleftrightarrow>
           all_keys tr = [] \<or> max_cycles tr \<le> current_cycle tr \<or>
           (should_reset_cycle tr \<and> max_cycles tr \<le> current_cycle tr + 1)"
    by (auto simp: exhausted_def)
  have b: "exhausted tr" if "max_cycles tr0 * int (length (all_keys tr0)) \<le> int (successes res)"
    using exhausted_by_count [OF inv pot] that fr by simp
  have c: "fst (get_next_key cd clock tr rs2) = None" if "exhausted tr"
    using exhausted_get_next_key [OF inv that] .
  have "distinct (all_keys tr)"
    using init_tracker [OF init] fr by (simp add: distinct_parse_provider_keys)
  then have d: "should_reset_cycle tr \<longleftrightarrow> set (all_keys tr) \<subseteq> fset (keys_tried_this_cycle tr)"
    using swept_all_tried [OF inv] swept_should_reset [of tr] by blast
  from a b c d show ?thesis by blast
qed


lemma init_AB:
  "KeyCycleTracker_init no_config env_AB 1 ''openai'' (Some 2) Map.empty = (tracker_AB, rotation_AB)"
  by (simp add: tracker_AB_def rotation_AB_def)

lemma run_AB_results: "fst run_AB = [Some ''A'', Some ''B'', Some ''A'', Some ''B'']"
  unfolding run_AB_def calls_AB_def by (simp add: eval_AB)

theorem exhausted_within_bound_witness:
  "max_cycles tracker_AB * int (length (all_keys tracker_AB)) \<le> int (successes (fst run_AB)) \<and>
   exhausted (fst (snd run_AB)) \<and>
   fst (get_next_key (exact_seconds 60) (steady_clock 6) (fst (snd run_AB)) (snd (snd run_AB))) = None"
proof -
  have run: "run_calls (exact_seconds 60) calls_AB tracker_AB rotation_AB = (fst run_AB, fst (snd run_AB), snd (snd run_AB))"
    by (simp add: run_AB_def)
  have n: "max_cycles tracker_AB * int (length (all_keys tracker_AB)) \<le> int (successes (fst run_AB))"
    by (simp add: run_AB_results successes_def tracker_AB_eq)
  from exhausted_within_bound [OF init_AB run, of "steady_clock 6" "snd (snd run_AB)"] n
  show ?thesis by blast
qed

subsection \<open>What the operations read and write of the rotation state\<close>

text \<open>
  \<^verbatim>\<open>get_next_key\<close> reads the rotation state through the entry of the tracker's provider
  only, writes nothing but that entry, and leaves \<^verbatim>\<open>failed_keys\<close> as it is.
\<close>

lemma get_next_key_store_same_cycle:
  assumes nr: "\<not> should_reset_cycle tr"
  shows "\<exists>r tr' st'. failed_keys st' = failed_keys st \<and>
     (\<forall>rs. state_at rs (provider tr) = st \<longrightarrow>
        get_next_key cd clock tr rs =
          (r, tr', if all_keys tr = [] \<or> max_cycles tr \<le> current_cycle tr then rs
                   else rs(provider tr \<mapsto> st')))"
proof (cases "all_keys tr = [] \<or> max_cycles tr \<le> current_cycle tr")
  case True
  then have "\<forall>rs. state_at rs (provider tr) = st \<longrightarrow>
        get_next_key cd clock tr rs =
          (None, tr, if all_keys tr = [] \<or> max_cycles tr \<le> current_cycle tr then rs
                   else rs(provider tr \<mapsto> st))"
    by (simp add: get_next_key_early)
  then show ?thesis by blast
next
  case False
  then have ne: "all_keys tr \<noteq> []" and lt: "current_cycle tr < max_cycles tr" by auto
  obtain r1 tr1 st1 where p: "probe_keys cd (clock 0) (length (all_keys tr)) tr st = (r1, tr1, st1)"
    by (cases "probe_keys cd (clock 0) (length (all_keys tr)) tr st") auto
  note fr = probe_keys_frame [OF p]
  have "get_next_key cd clock tr rs = (r1, tr1, rs(provider tr \<mapsto> st1))"
    if s: "state_at rs (provider tr) = st" for rs
  proof (cases r1)
    case None
    note pn = probe_keys_None [OF p [unfolded None]]
    with nr fr have nr1: "\<not> should_reset_cycle tr1" by (simp add: should_reset_cycle_def)
    show ?thesis
      using get_next_key_stuck [where clock = clock, OF ne lt p [unfolded None, folded s] nr1] None
      by simp
  next
    case (Some k)
    show ?thesis
      using get_next_key_found [where clock = clock, OF ne lt p [unfolded Some, folded s]] Some
      by simp
  qed
  with False fr show ?thesis by auto
qed

lemma get_next_key_store:
  "\<exists>r tr' st'. failed_keys st' = failed_keys st \<and>
     (\<forall>rs. state_at rs (provider tr) = st \<longrightarrow>
        get_next_key cd clock tr rs =
          (r, tr', if all_keys tr = [] \<or> max_cycles tr \<le> current_cycle tr then rs
                   else rs(provider tr \<mapsto> st')))"
proof (cases "should_reset_cycle tr \<and> all_keys tr \<noteq> [] \<and> current_cycle tr < max_cycles tr")
  case False
  show ?thesis
  proof (cases "should_reset_cycle tr")
    case True
    with False have "all_keys tr = [] \<or> max_cycles tr \<le> current_cycle tr" by auto
    then have "\<forall>rs. state_at rs (provider tr) = st \<longrightarrow>
        get_next_key cd clock tr rs =
          (None, tr, if all_keys tr = [] \<or> max_cycles tr \<le> current_cycle tr then rs
                   else rs(provider tr \<mapsto> st))"
      by (simp add: get_next_key_early)
    then show ?thesis by blast
  next
    case False
    then show ?thesis by (rule get_next_key_store_same_cycle)
  qed
next
  case True
  then have sr: "should_reset_cycle tr" and ne: "all_keys tr \<noteq> []"
    and lt: "current_cycle tr < max_cycles tr" by auto
  obtain r1 tr1 st1 where p: "probe_keys cd (clock 0) (length (all_keys tr)) tr st = (r1, tr1, st1)"
    by (cases "probe_keys cd (clock 0) (length (all_keys tr)) tr st") auto
  note fr = probe_keys_frame [OF p]
  show ?thesis
  proof (cases r1)
    case (Some k)
    have "get_next_key cd clock tr rs = (r1, tr1, rs(provider tr \<mapsto> st1))"
      if s: "state_at rs (provider tr) = st" for rs
      using get_next_key_found [where clock = clock, OF ne lt p [unfolded Some, folded s]] Some
      by simp
    with ne lt fr show ?thesis by auto
  next
    case None
    note pn = probe_keys_None [OF p [unfolded None]]
    with sr fr have sr1: "should_reset_cycle tr1" by (simp add: should_reset_cycle_def)
    let ?tr2 = "reset_cycle tr1"
    have ne2: "all_keys tr1 \<noteq> []" using ne fr by simp
    have pr2: "provider ?tr2 = provider tr" using fr by (simp add: reset_cycle_simps)
    from get_next_key_store_same_cycle [OF not_should_reset_fresh [OF ne2], of st1 cd "\<lambda>i. clock (Suc i)"]
    obtain r tr' st' where f: "failed_keys st' = failed_keys st1"
      and all: "\<And>rs. state_at rs (provider ?tr2) = st1 \<Longrightarrow>
        get_next_key cd (\<lambda>i. clock (Suc i)) ?tr2 rs =
          (r, tr', if all_keys ?tr2 = [] \<or> max_cycles ?tr2 \<le> current_cycle ?tr2 then rs
                   else rs(provider ?tr2 \<mapsto> st'))"
      by blast
    define st2 where "st2 = (if all_keys ?tr2 = [] \<or> max_cycles ?tr2 \<le> current_cycle ?tr2 then st1 else st')"
    have A: "get_next_key cd clock tr rs = (r, tr', rs(provider tr \<mapsto> st2))"
      if s: "state_at rs (provider tr) = st" for rs
    proof -
      have "state_at (rs(provider tr \<mapsto> st1)) (provider ?tr2) = st1"
        by (simp add: pr2 state_at_def)
      from all [OF this] show ?thesis
        unfolding get_next_key_new_cycle [where clock = clock, OF ne lt p [unfolded None, folded s] sr1]
        by (simp add: pr2 st2_def)
    qed
    have B: "failed_keys st2 = failed_keys st"
      using f fr by (simp add: st2_def)
    have "\<forall>rs. state_at rs (provider tr) = st \<longrightarrow>
        get_next_key cd clock tr rs =
          (r, tr', if all_keys tr = [] \<or> max_cycles tr \<le> current_cycle tr then rs
                   else rs(provider tr \<mapsto> st2))"
      using A ne lt by simp
    with B show ?thesis by blast
  qed
qed


lemma get_next_key_failed_keys:
  "failed_keys (state_at (snd (snd (get_next_key cd clock tr rs))) (provider tr)) =
   failed_keys (state_at rs (provider tr))"
proof -
  from get_next_key_store [of "state_at rs (provider tr)" tr cd clock]
  obtain r tr' st' where f: "failed_keys st' = failed_keys (state_at rs (provider tr))"
    and all: "\<And>rs'. state_at rs' (provider tr) = state_at rs (provider tr) \<Longrightarrow>
        get_next_key cd clock tr rs' =
          (r, tr', if all_keys tr = [] \<or> max_cycles tr \<le> current_cycle tr then rs'
                   else rs'(provider tr \<mapsto> st'))"
    by blast
  show ?thesis unfolding all [OF refl] using f by (simp add: state_at_def)
qed












subsection \<open>C9: the resets\<close>



subsection \<open>Round-robin selection by \<^verbatim>\<open>get_api_key\<close>\<close>

lemma api_key_scan_available:
  assumes "\<not> in_cooldown cd now st (ks ! nat ((last_used_index st + 1 + int offset) mod int (length ks)))"
  shows "\<exists>fk. api_key_scan cd now ks st (offset # rest) =
      (Some (ks ! nat ((last_used_index st + 1 + int offset) mod int (length ks))),
       st\<lparr>failed_keys := fk, last_used_index := (last_used_index st + 1 + int offset) mod int (length ks)\<rparr>) \<and>
      (\<forall>k. fk k = None \<or> fk k = failed_keys st k)"
proof -
  let ?i = "(last_used_index st + 1 + int offset) mod int (length ks)"
  show ?thesis
  proof (cases "failed_keys st (ks ! nat ?i)")
    case None
    then have "api_key_scan cd now ks st (offset # rest) =
        (Some (ks ! nat ?i), st\<lparr>failed_keys := failed_keys st, last_used_index := ?i\<rparr>)"
      by (simp add: Let_def)
    then show ?thesis by blast
  next
    case (Some ft)
    show ?thesis
    proof (cases "0 < KEY_COOLDOWN_SECONDS cd")
      case True
      with assms Some have "\<not> float_sub cd now ft < real_of_int (KEY_COOLDOWN_SECONDS cd)" by (simp add: in_cooldown_def)
      with Some True have "api_key_scan cd now ks st (offset # rest) =
        (Some (ks ! nat ?i), st\<lparr>failed_keys := (failed_keys st)(ks ! nat ?i := None), last_used_index := ?i\<rparr>)"
        by (simp add: Let_def)
      moreover have "\<forall>k. ((failed_keys st)(ks ! nat ?i := None)) k = None \<or>
          ((failed_keys st)(ks ! nat ?i := None)) k = failed_keys st k"
        by simp
      ultimately show ?thesis by blast
    next
      case False
      with Some have "api_key_scan cd now ks st (offset # rest) =
        (Some (ks ! nat ?i), st\<lparr>failed_keys := failed_keys st, last_used_index := ?i\<rparr>)"
        by (simp add: Let_def)
      then show ?thesis by blast
    qed
  qed
qed






subsection \<open>Round-robin selection by one tracker\<close>

lemma rotation_mem: "ks \<noteq> [] \<Longrightarrow> rotation ks l j \<in> set ks"
  by (simp add: rotation_def nat_less_iff)

lemma rotation_eq_dvd:
  assumes "distinct ks" "ks \<noteq> []" "rotation ks l a = rotation ks l b"
  shows "int (length ks) dvd int a - int b"
proof -
  let ?n = "int (length ks)"
  have n: "0 < ?n" using assms(2) by simp
  then have "nat ((l + int a) mod ?n) < length ks" "nat ((l + int b) mod ?n) < length ks"
    by (simp_all add: nat_less_iff)
  with assms(1,3) have "nat ((l + int a) mod ?n) = nat ((l + int b) mod ?n)"
    by (simp add: rotation_def nth_eq_iff_index_eq)
  with n have "(l + int a) mod ?n = (l + int b) mod ?n"
    by (simp add: nat_eq_iff)
  then have "?n dvd (l + int a) - (l + int b)"
    by (simp add: mod_eq_dvd_iff)
  then show ?thesis by simp
qed

lemma rr_state_next_index:
  assumes "rr_state l0 j tr" "all_keys tr \<noteq> []"
  shows "next_index tr = (l0 + int (Suc j)) mod int (length (all_keys tr))"
    and "next_candidate tr = rotation (all_keys tr) l0 (Suc j)"
proof -
  have "(key_index tr + 1) mod int (length (all_keys tr)) =
        (l0 + int (Suc j)) mod int (length (all_keys tr))"
  proof (cases "j = 0")
    case True
    with assms(1) show ?thesis by (simp add: rr_state_def)
  next
    case False
    with assms(1) have "key_index tr = (l0 + int j) mod int (length (all_keys tr))"
      by (simp add: rr_state_def)
    then show ?thesis
      by (metis mod_add_left_eq add.assoc add.commute of_nat_Suc)
  qed
  then show "next_index tr = (l0 + int (Suc j)) mod int (length (all_keys tr))"
    and "next_candidate tr = rotation (all_keys tr) l0 (Suc j)"
    by (simp_all add: next_index_def next_candidate_def rotation_def)
qed

lemma rr_state_tried_subset:
  assumes "rr_state l0 j tr" "all_keys tr \<noteq> []"
  shows "fset (keys_tried_this_cycle tr) \<subseteq> set (all_keys tr)"
proof -
  from assms(1) have "fset (keys_tried_this_cycle tr) =
       (\<lambda>i. rotation (all_keys tr) l0 (j - i)) ` {0..<fcard (keys_tried_this_cycle tr)}"
    by (simp add: rr_state_def)
  then show ?thesis using rotation_mem [OF assms(2)] by auto
qed

lemma rr_state_fresh_candidate:
  assumes rr: "rr_state l0 j tr" and ne: "all_keys tr \<noteq> []" and d: "distinct (all_keys tr)"
    and less: "fcard (keys_tried_this_cycle tr) < length (all_keys tr)"
  shows "rotation (all_keys tr) l0 (Suc j) |\<notin>| keys_tried_this_cycle tr"
proof
  assume "rotation (all_keys tr) l0 (Suc j) |\<in>| keys_tried_this_cycle tr"
  moreover from rr have "fset (keys_tried_this_cycle tr) =
       (\<lambda>i. rotation (all_keys tr) l0 (j - i)) ` {0..<fcard (keys_tried_this_cycle tr)}"
    by (simp add: rr_state_def)
  ultimately obtain i where i: "i < fcard (keys_tried_this_cycle tr)"
    and eq: "rotation (all_keys tr) l0 (Suc j) = rotation (all_keys tr) l0 (j - i)"
    by auto
  from rr have "current_cycle tr * int (length (all_keys tr)) + int (fcard (keys_tried_this_cycle tr)) = int j"
    and "0 \<le> current_cycle tr"
    by (simp_all add: rr_state_def)
  then have "int (fcard (keys_tried_this_cycle tr)) \<le> int j"
    by (smt (verit) mult_nonneg_nonneg of_nat_0_le_iff)
  with i have ij: "i < j" by simp
  from rotation_eq_dvd [OF d ne eq] have "int (length (all_keys tr)) dvd int (Suc j) - int (j - i)" .
  moreover from ij have "int (Suc j) - int (j - i) = int (Suc i)" by simp
  ultimately have "int (length (all_keys tr)) dvd int (Suc i)" by simp
  then have "length (all_keys tr) dvd Suc i" by (simp only: int_dvd_int_iff)
  then have "length (all_keys tr) \<le> Suc i" by (rule dvd_imp_le) simp
  with i less show False by simp
qed


lemma rr_state_cycle_less:
  assumes rr: "rr_state l0 j tr" and ne: "all_keys tr \<noteq> []"
    and room: "int (Suc j) \<le> max_cycles tr * int (length (all_keys tr))"
  shows "current_cycle tr < max_cycles tr"
    and "fcard (keys_tried_this_cycle tr) = length (all_keys tr) \<Longrightarrow> current_cycle tr + 1 < max_cycles tr"
proof -
  let ?n = "int (length (all_keys tr))"
  have n: "0 < ?n" using ne by simp
  from rr have pot: "current_cycle tr * ?n + int (fcard (keys_tried_this_cycle tr)) = int j"
    by (simp add: rr_state_def)
  then have "current_cycle tr * ?n < max_cycles tr * ?n" using room by linarith
  with n show "current_cycle tr < max_cycles tr"
    by (simp add: mult_less_cancel_right)
  assume "fcard (keys_tried_this_cycle tr) = length (all_keys tr)"
  with pot have "(current_cycle tr + 1) * ?n = int j" by (simp add: algebra_simps)
  with room have "(current_cycle tr + 1) * ?n < max_cycles tr * ?n" by linarith
  with n show "current_cycle tr + 1 < max_cycles tr"
    by (simp add: mult_less_cancel_right)
qed

lemma rr_step_fresh:
  assumes rr: "rr_state l0 j tr" and ne: "all_keys tr \<noteq> []" and d: "distinct (all_keys tr)"
    and room: "int (Suc j) \<le> max_cycles tr * int (length (all_keys tr))"
    and av: "\<forall>k \<in> set (all_keys tr). k |\<in>| keys_attempted tr \<or>
               \<not> in_cooldown cd (clock 0) (state_at rs (provider tr)) k"
    and less: "fcard (keys_tried_this_cycle tr) < length (all_keys tr)"
  shows "get_next_key cd clock tr rs =
      (Some (rotation (all_keys tr) l0 (Suc j)),
       tr\<lparr>key_index := next_index tr,
          keys_tried_this_cycle := finsert (rotation (all_keys tr) l0 (Suc j)) (keys_tried_this_cycle tr),
          keys_attempted := finsert (rotation (all_keys tr) l0 (Suc j)) (keys_attempted tr)\<rparr>,
       rs(provider tr \<mapsto> (state_at rs (provider tr))\<lparr>last_used_index := next_index tr\<rparr>))"
proof -
  let ?c = "rotation (all_keys tr) l0 (Suc j)"
  let ?st = "state_at rs (provider tr)"
  note nc = rr_state_next_index(2) [OF rr ne]
  have "?c \<in> set (all_keys tr)" by (rule rotation_mem [OF ne])
  with av have "?c |\<in>| keys_attempted tr \<or> \<not> in_cooldown cd (clock 0) ?st ?c" by blast
  with rr_state_fresh_candidate [OF rr ne d less] have ns: "\<not> skipped cd (clock 0) tr ?st"
    by (auto simp: skipped_def nc)
  from ne obtain n' where n': "length (all_keys tr) = Suc n'"
    by (cases "all_keys tr") auto
  have p: "probe_keys cd (clock 0) (length (all_keys tr)) tr ?st =
      (Some ?c,
       tr\<lparr>key_index := next_index tr,
          keys_tried_this_cycle := finsert ?c (keys_tried_this_cycle tr),
          keys_attempted := finsert ?c (keys_attempted tr)\<rparr>,
       ?st\<lparr>last_used_index := next_index tr\<rparr>)"
    unfolding n' probe_keys_accept [OF ns] nc ..
  show ?thesis
    by (rule get_next_key_found [where clock = clock, OF ne rr_state_cycle_less(1) [OF rr ne room] p])
qed

lemma rr_state_after_fresh:
  assumes rr: "rr_state l0 j tr" and ne: "all_keys tr \<noteq> []" and d: "distinct (all_keys tr)"
    and less: "fcard (keys_tried_this_cycle tr) < length (all_keys tr)"
  shows "rr_state l0 (Suc j)
      (tr\<lparr>key_index := next_index tr,
          keys_tried_this_cycle := finsert (rotation (all_keys tr) l0 (Suc j)) (keys_tried_this_cycle tr),
          keys_attempted := finsert (rotation (all_keys tr) l0 (Suc j)) (keys_attempted tr)\<rparr>)"
proof -
  let ?c = "rotation (all_keys tr) l0 (Suc j)"
  let ?r = "fcard (keys_tried_this_cycle tr)"
  note fresh = rr_state_fresh_candidate [OF rr ne d less]
  from rr have pot: "current_cycle tr * int (length (all_keys tr)) + int ?r = int j"
    and c0: "0 \<le> current_cycle tr"
    and img: "fset (keys_tried_this_cycle tr) = (\<lambda>i. rotation (all_keys tr) l0 (j - i)) ` {0..<?r}"
    and sub: "fset (keys_tried_this_cycle tr) \<subseteq> fset (keys_attempted tr)"
    and att: "current_cycle tr = 0 \<or> set (all_keys tr) \<subseteq> fset (keys_attempted tr)"
    unfolding rr_state_def by blast+
  have card: "fcard (finsert ?c (keys_tried_this_cycle tr)) = Suc ?r"
    using fresh by (simp add: fcard_finsert_disjoint)
  have "(\<lambda>i. rotation (all_keys tr) l0 (Suc j - i)) ` {0..<Suc ?r} =
        insert ?c ((\<lambda>i. rotation (all_keys tr) l0 (j - i)) ` {0..<?r})"
  proof -
    have a: "{0..<Suc ?r} = insert 0 {Suc 0..<Suc ?r}" by auto
    have b: "{Suc 0..<Suc ?r} = Suc ` {0..<?r}" by (simp only: image_Suc_atLeastLessThan)
    have "(\<lambda>i. rotation (all_keys tr) l0 (Suc j - i)) ` {0..<Suc ?r} =
        insert (rotation (all_keys tr) l0 (Suc j - 0))
          ((\<lambda>i. rotation (all_keys tr) l0 (Suc j - Suc i)) ` {0..<?r})"
      by (simp only: a b image_insert image_image)
    then show ?thesis by (simp only: diff_Suc_Suc diff_zero)
  qed
  with img have img': "fset (finsert ?c (keys_tried_this_cycle tr)) =
      (\<lambda>i. rotation (all_keys tr) l0 (Suc j - i)) ` {0..<Suc ?r}"
    by simp
  show ?thesis
    unfolding rr_state_def
    using pot c0 sub att img' card rr_state_next_index(1) [OF rr ne]
    by (auto simp del: of_nat_Suc simp add: of_nat_Suc [symmetric] algebra_simps)
qed


lemma in_cooldown_failed_keys:
  "failed_keys st' = failed_keys st \<Longrightarrow> in_cooldown cd t st' k = in_cooldown cd t st k"
  by (simp add: in_cooldown_def)

lemma rr_state_after_sweep:
  assumes rr: "rr_state l0 j tr" and ne: "all_keys tr \<noteq> []"
    and full: "fcard (keys_tried_this_cycle tr) = length (all_keys tr)"
  shows "rr_state l0 j (reset_cycle (tr\<lparr>key_index :=
            (key_index tr + int (length (all_keys tr))) mod int (length (all_keys tr))\<rparr>))"
    and "set (all_keys tr) \<subseteq> fset (keys_attempted tr)"
proof -
  let ?n = "int (length (all_keys tr))"
  have n: "0 < ?n" using ne by simp
  from rr have pot: "current_cycle tr * ?n + int (fcard (keys_tried_this_cycle tr)) = int j"
    and c0: "0 \<le> current_cycle tr"
    and ki: "key_index tr = (if j = 0 then l0 else (l0 + int j) mod ?n)"
    and sub: "fset (keys_tried_this_cycle tr) \<subseteq> fset (keys_attempted tr)"
    unfolding rr_state_def by blast+
  have sr: "should_reset_cycle tr" using full by (simp add: should_reset_cycle_def)
  from swept_all_tried [OF rr_state_tried_subset [OF rr ne] sr] sub
  show att: "set (all_keys tr) \<subseteq> fset (keys_attempted tr)" by blast
  from pot full have pot': "(current_cycle tr + 1) * ?n = int j" by (simp add: algebra_simps)
  from c0 n have "0 < (current_cycle tr + 1) * ?n" by simp
  with pot' have j: "j \<noteq> 0" by auto
  with ki have "key_index tr = (l0 + int j) mod ?n" by simp
  then have ki': "(key_index tr + ?n) mod ?n = (l0 + int j) mod ?n" by simp
  show "rr_state l0 j (reset_cycle (tr\<lparr>key_index := (key_index tr + ?n) mod ?n\<rparr>))"
    unfolding rr_state_def
    using pot' c0 j ki' att by (simp add: reset_cycle_def fcard_fempty)
qed

lemma rr_step:
  assumes rr: "rr_state l0 j tr" and ne: "all_keys tr \<noteq> []" and d: "distinct (all_keys tr)"
    and room: "int (Suc j) \<le> max_cycles tr * int (length (all_keys tr))"
    and av: "\<forall>k \<in> set (all_keys tr). k |\<in>| keys_attempted tr \<or>
               \<not> in_cooldown cd (clock 0) (state_at rs (provider tr)) k"
  shows "\<exists>tr' rs'. get_next_key cd clock tr rs = (Some (rotation (all_keys tr) l0 (Suc j)), tr', rs') \<and>
       rr_state l0 (Suc j) tr' \<and> all_keys tr' = all_keys tr \<and> max_cycles tr' = max_cycles tr \<and>
       provider tr' = provider tr \<and> fset (keys_attempted tr) \<subseteq> fset (keys_attempted tr') \<and>
       last_used_index (state_at rs' (provider tr)) = (l0 + int (Suc j)) mod int (length (all_keys tr))"
proof (cases "fcard (keys_tried_this_cycle tr) < length (all_keys tr)")
  case True
  let ?c = "rotation (all_keys tr) l0 (Suc j)"
  let ?tr' = "tr\<lparr>key_index := next_index tr,
          keys_tried_this_cycle := finsert ?c (keys_tried_this_cycle tr),
          keys_attempted := finsert ?c (keys_attempted tr)\<rparr>"
  let ?rs' = "rs(provider tr \<mapsto> (state_at rs (provider tr))\<lparr>last_used_index := next_index tr\<rparr>)"
  have g: "get_next_key cd clock tr rs = (Some ?c, ?tr', ?rs')"
    by (rule rr_step_fresh [where clock = clock, OF rr ne d room av True])
  have r: "rr_state l0 (Suc j) ?tr'"
    by (rule rr_state_after_fresh [OF rr ne d True])
  have l: "last_used_index (state_at ?rs' (provider tr)) = (l0 + int (Suc j)) mod int (length (all_keys tr))"
    using rr_state_next_index(1) [OF rr ne] by (simp add: state_at_def)
  have f: "all_keys ?tr' = all_keys tr \<and> max_cycles ?tr' = max_cycles tr \<and>
       provider ?tr' = provider tr \<and> fset (keys_attempted tr) \<subseteq> fset (keys_attempted ?tr')"
    by auto
  from g r l f show ?thesis by blast
next
  case False
  with tried_card_le [OF rr_state_tried_subset [OF rr ne]]
  have full: "fcard (keys_tried_this_cycle tr) = length (all_keys tr)" by simp
  let ?n = "int (length (all_keys tr))"
  let ?st = "state_at rs (provider tr)"
  let ?tr1 = "tr\<lparr>key_index := (key_index tr + ?n) mod ?n\<rparr>"
  let ?tr2 = "reset_cycle ?tr1"
  let ?rs1 = "rs(provider tr \<mapsto> ?st)"
  let ?clock = "\<lambda>i. clock (Suc i)"
  have sr: "should_reset_cycle tr" using full by (simp add: should_reset_cycle_def)
  have len: "length (all_keys tr) \<noteq> 0" using ne by simp
  have p: "probe_keys cd (clock 0) (length (all_keys tr)) tr ?st = (None, ?tr1, ?st)"
    using probe_all_tried [OF swept_all_tried [OF rr_state_tried_subset [OF rr ne] sr] ne,
        of cd "clock 0" "length (all_keys tr)"] len by simp
  have sr1: "should_reset_cycle ?tr1" using sr by (simp add: should_reset_cycle_def)
  have unf: "get_next_key cd clock tr rs = get_next_key cd ?clock ?tr2 ?rs1"
    by (rule get_next_key_new_cycle [where clock = clock,
          OF ne rr_state_cycle_less(1) [OF rr ne room] p sr1])
  note rr2 = rr_state_after_sweep(1) [OF rr ne full]
  note att = rr_state_after_sweep(2) [OF rr ne full]
  have fr2: "all_keys ?tr2 = all_keys tr" "max_cycles ?tr2 = max_cycles tr" "provider ?tr2 = provider tr"
    "keys_attempted ?tr2 = keys_attempted tr" "keys_tried_this_cycle ?tr2 = {||}"
    by (simp_all add: reset_cycle_def)
  have ne2: "all_keys ?tr2 \<noteq> []" and d2: "distinct (all_keys ?tr2)"
    and room2: "int (Suc j) \<le> max_cycles ?tr2 * int (length (all_keys ?tr2))"
    using ne d room by (simp_all add: reset_cycle_def)
  have av2: "\<forall>k \<in> set (all_keys ?tr2). k |\<in>| keys_attempted ?tr2 \<or>
               \<not> in_cooldown cd (?clock 0) (state_at ?rs1 (provider ?tr2)) k"
    using att unfolding fr2 by auto
  have less2: "fcard (keys_tried_this_cycle ?tr2) < length (all_keys ?tr2)"
    unfolding fr2 using ne by (simp add: fcard_fempty)
  let ?c = "rotation (all_keys ?tr2) l0 (Suc j)"
  let ?tr' = "?tr2\<lparr>key_index := next_index ?tr2,
          keys_tried_this_cycle := finsert ?c (keys_tried_this_cycle ?tr2),
          keys_attempted := finsert ?c (keys_attempted ?tr2)\<rparr>"
  let ?rs' = "?rs1(provider ?tr2 \<mapsto> (state_at ?rs1 (provider ?tr2))\<lparr>last_used_index := next_index ?tr2\<rparr>)"
  have g2: "get_next_key cd ?clock ?tr2 ?rs1 = (Some ?c, ?tr', ?rs')"
    by (rule rr_step_fresh [where clock = "\<lambda>i. clock (Suc i)", OF rr2 ne2 d2 room2 av2 less2])
  have r: "rr_state l0 (Suc j) ?tr'"
    by (rule rr_state_after_fresh [OF rr2 ne2 d2 less2])
  have l: "last_used_index (state_at ?rs' (provider tr)) = (l0 + int (Suc j)) mod int (length (all_keys tr))"
    using rr_state_next_index(1) [OF rr2 ne2] unfolding fr2 by (simp add: state_at_def)
  have f: "all_keys ?tr' = all_keys tr \<and> max_cycles ?tr' = max_cycles tr \<and>
       provider ?tr' = provider tr \<and> fset (keys_attempted tr) \<subseteq> fset (keys_attempted ?tr')"
    by (auto simp: reset_cycle_def)
  have c: "?c = rotation (all_keys tr) l0 (Suc j)" by (simp only: fr2)
  from g2 have g: "get_next_key cd clock tr rs = (Some (rotation (all_keys tr) l0 (Suc j)), ?tr', ?rs')"
    unfolding unf c .
  from g r l f show ?thesis by blast
qed

lemma run_exhausted:
  "fset (keys_tried_this_cycle tr) \<subseteq> set (all_keys tr) \<Longrightarrow>
   current_cycle tr * int (length (all_keys tr)) + int (fcard (keys_tried_this_cycle tr)) = int s \<Longrightarrow>
   max_cycles tr * int (length (all_keys tr)) \<le> int s \<Longrightarrow>
     fst (run_calls cd (map Get_next_key clocks) tr rs) = map (\<lambda>i. None) [0..<length clocks]"
proof (induction clocks arbitrary: tr rs)
  case Nil
  then show ?case by simp
next
  case (Cons clock clocks)
  obtain r tr1 rs1 where g: "get_next_key cd clock tr rs = (r, tr1, rs1)"
    by (cases "get_next_key cd clock tr rs") auto
  obtain res1 tr2 rs2 where rc: "run_calls cd (map Get_next_key clocks) tr1 rs1 = (res1, tr2, rs2)"
    by (cases "run_calls cd (map Get_next_key clocks) tr1 rs1") auto
  from exhausted_get_next_key [OF Cons.prems(1) exhausted_by_count [OF Cons.prems], of cd clock rs] g
  have r: "r = None" by simp
  note p = get_next_key_potential [OF g Cons.prems(1)]
  note e = get_next_key_effect(1) [OF g]
  from p(2) r Cons.prems(2)
  have pot1: "current_cycle tr1 * int (length (all_keys tr1)) + int (fcard (keys_tried_this_cycle tr1)) = int s"
    by simp
  from e Cons.prems(3) have en1: "max_cycles tr1 * int (length (all_keys tr1)) \<le> int s" by simp
  from Cons.IH [OF p(1) pot1 en1, of rs1] rc have "res1 = map (\<lambda>i. None) [0..<length clocks]" by simp
  then have "fst (run_calls cd (map Get_next_key (clock # clocks)) tr rs) =
      None # map (\<lambda>i. None) [0..<length clocks]"
    using run_calls_Get [OF g rc] r by simp
  also have "\<dots> = map (\<lambda>i. None) [0..<length (clock # clocks)]"
    by (simp add: upt_rec [of 0] map_Suc_upt [symmetric] del: upt_Suc)
  finally show ?case .
qed

lemma rr_run:
  "rr_state l0 j tr \<Longrightarrow> all_keys tr \<noteq> [] \<Longrightarrow> distinct (all_keys tr) \<Longrightarrow>
   (\<forall>c \<in> set clocks. \<forall>k \<in> set (all_keys tr). k |\<in>| keys_attempted tr \<or>
               \<not> in_cooldown cd (c 0) (state_at rs (provider tr)) k) \<Longrightarrow>
   fst (run_calls cd (map Get_next_key clocks) tr rs) =
     map (\<lambda>i. if int (Suc (j + i)) \<le> max_cycles tr * int (length (all_keys tr))
               then Some (rotation (all_keys tr) l0 (Suc (j + i))) else None) [0..<length clocks]"
proof (induction clocks arbitrary: tr rs j)
  case Nil
  then show ?case by simp
next
  case (Cons clock clocks)
  let ?m = "max_cycles tr * int (length (all_keys tr))"
  show ?case
  proof (cases "int (Suc j) \<le> ?m")
    case True
    from Cons.prems(4) have av: "\<forall>k \<in> set (all_keys tr). k |\<in>| keys_attempted tr \<or>
               \<not> in_cooldown cd (clock 0) (state_at rs (provider tr)) k" by simp
    from rr_step [where clock = clock, OF Cons.prems(1,2,3) True av]
    obtain tr' rs' where g: "get_next_key cd clock tr rs = (Some (rotation (all_keys tr) l0 (Suc j)), tr', rs')"
      and rr': "rr_state l0 (Suc j) tr'" and ak: "all_keys tr' = all_keys tr"
      and mc: "max_cycles tr' = max_cycles tr" and pr: "provider tr' = provider tr"
      and att: "fset (keys_attempted tr) \<subseteq> fset (keys_attempted tr')"
      by blast
    have fk: "failed_keys (state_at rs' (provider tr)) = failed_keys (state_at rs (provider tr))"
      using get_next_key_failed_keys [of cd clock tr rs] unfolding g by simp
    have av': "\<forall>c \<in> set clocks. \<forall>k \<in> set (all_keys tr'). k |\<in>| keys_attempted tr' \<or>
               \<not> in_cooldown cd (c 0) (state_at rs' (provider tr')) k"
    proof (intro ballI)
      fix c k assume "c \<in> set clocks" "k \<in> set (all_keys tr')"
      with Cons.prems(4) ak have "k |\<in>| keys_attempted tr \<or>
               \<not> in_cooldown cd (c 0) (state_at rs (provider tr)) k" by simp
      with att show "k |\<in>| keys_attempted tr' \<or> \<not> in_cooldown cd (c 0) (state_at rs' (provider tr')) k"
        unfolding pr in_cooldown_failed_keys [OF fk] by auto
    qed
    have ne': "all_keys tr' \<noteq> []" and d': "distinct (all_keys tr')"
      using Cons.prems(2,3) ak by simp_all
    obtain res1 tr2 rs2 where rc: "run_calls cd (map Get_next_key clocks) tr' rs' = (res1, tr2, rs2)"
      by (cases "run_calls cd (map Get_next_key clocks) tr' rs'") auto
    from Cons.IH [OF rr' ne' d' av'] rc
    have res1: "res1 = map (\<lambda>i. if int (Suc (Suc j + i)) \<le> ?m
               then Some (rotation (all_keys tr) l0 (Suc (Suc j + i))) else None) [0..<length clocks]"
      unfolding ak mc by simp
    have "fst (run_calls cd (map Get_next_key (clock # clocks)) tr rs) =
        Some (rotation (all_keys tr) l0 (Suc j)) # res1"
      using run_calls_Get [OF g rc] by simp
    also have "\<dots> = map (\<lambda>i. if int (Suc (j + i)) \<le> ?m
               then Some (rotation (all_keys tr) l0 (Suc (j + i))) else None) [0..<length (clock # clocks)]"
      unfolding res1 using True
      by (simp add: upt_rec [of 0] map_Suc_upt [symmetric] del: upt_Suc)
    finally show ?thesis .
  next
    case False
    from Cons.prems(1) have pot: "current_cycle tr * int (length (all_keys tr)) +
        int (fcard (keys_tried_this_cycle tr)) = int j"
      unfolding rr_state_def by blast
    from False have en: "?m \<le> int j" by simp
    have "fst (run_calls cd (map Get_next_key (clock # clocks)) tr rs) =
        map (\<lambda>i. None) [0..<length (clock # clocks)]"
      by (rule run_exhausted [OF rr_state_tried_subset [OF Cons.prems(1,2)] pot en])
    also have "\<dots> = map (\<lambda>i. if int (Suc (j + i)) \<le> ?m
               then Some (rotation (all_keys tr) l0 (Suc (j + i))) else None) [0..<length (clock # clocks)]"
      using en by (intro map_cong) auto
    finally show ?thesis .
  qed
qed

lemma rr_state_init:
  "KeyCycleTracker_init cfg env mc p mo rs = (tr0, rs0) \<Longrightarrow>
     rr_state (last_used_index (state_at rs p)) 0 tr0"
  by (auto simp: KeyCycleTracker_init_def rr_state_def fcard_fempty)

subsection \<open>Keys in cooldown and the keys a tracker returns\<close>

lemma get_next_key_same_cycle_available:
  assumes g: "get_next_key cd clock tr rs = (Some k, tr', rs')" and nr: "\<not> should_reset_cycle tr"
  shows "k |\<in>| keys_attempted tr \<or> \<not> in_cooldown cd (clock 0) (state_at rs (provider tr)) k"
proof -
  let ?p = "probe_keys cd (clock 0) (length (all_keys tr)) tr (state_at rs (provider tr))"
  obtain r1 tr1 st1 where p: "?p = (r1, tr1, st1)"
    by (cases ?p) auto
  note fr = probe_keys_frame [OF p]
  have "\<not> (all_keys tr = [] \<or> max_cycles tr \<le> current_cycle tr)"
  proof
    assume early: "all_keys tr = [] \<or> max_cycles tr \<le> current_cycle tr"
    from g show False unfolding get_next_key_early [OF early] by simp
  qed
  then have ne: "all_keys tr \<noteq> []" and lt: "current_cycle tr < max_cycles tr" by auto
  show ?thesis
  proof (cases r1)
    case None
    note pn = probe_keys_None [OF p [unfolded None]]
    with nr fr have nr1: "\<not> should_reset_cycle tr1" by (simp add: should_reset_cycle_def)
    from g show ?thesis
      unfolding get_next_key_stuck [where clock = clock, OF ne lt p [unfolded None] nr1] by simp
  next
    case (Some k1)
    from g have k1: "k1 = k"
      unfolding get_next_key_found [where clock = clock, OF ne lt p [unfolded Some]] by simp
    from probe_keys_Some [OF p [unfolded Some k1]] show ?thesis by blast
  qed
qed

lemma get_next_key_available:
  assumes g: "get_next_key cd clock tr rs = (Some k, tr', rs')"
  shows "k |\<in>| keys_attempted tr \<or> \<not> in_cooldown cd (clock 0) (state_at rs (provider tr)) k \<or>
         \<not> in_cooldown cd (clock 1) (state_at rs (provider tr)) k"
proof (cases "should_reset_cycle tr")
  case False
  from get_next_key_same_cycle_available [OF g False] show ?thesis by blast
next
  case sr: True
  let ?st = "state_at rs (provider tr)"
  let ?p = "probe_keys cd (clock 0) (length (all_keys tr)) tr ?st"
  obtain r1 tr1 st1 where p: "?p = (r1, tr1, st1)"
    by (cases ?p) auto
  note fr = probe_keys_frame [OF p]
  have "\<not> (all_keys tr = [] \<or> max_cycles tr \<le> current_cycle tr)"
  proof
    assume early: "all_keys tr = [] \<or> max_cycles tr \<le> current_cycle tr"
    from g show False unfolding get_next_key_early [OF early] by simp
  qed
  then have ne: "all_keys tr \<noteq> []" and lt: "current_cycle tr < max_cycles tr" by auto
  show ?thesis
  proof (cases r1)
    case (Some k1)
    from g have k1: "k1 = k"
      unfolding get_next_key_found [where clock = clock, OF ne lt p [unfolded Some]] by simp
    from probe_keys_Some [OF p [unfolded Some k1]] show ?thesis by blast
  next
    case None
    note pn = probe_keys_None [OF p [unfolded None]]
    with sr fr have sr1: "should_reset_cycle tr1" by (simp add: should_reset_cycle_def)
    let ?tr2 = "reset_cycle tr1"
    from g have g2: "get_next_key cd (\<lambda>i. clock (Suc i)) ?tr2 (rs(provider tr \<mapsto> st1)) = (Some k, tr', rs')"
      unfolding get_next_key_new_cycle [where clock = clock, OF ne lt p [unfolded None] sr1] .
    have "all_keys tr1 \<noteq> []" using ne fr by simp
    then have nr2: "\<not> should_reset_cycle ?tr2" by (rule not_should_reset_fresh)
    have st: "state_at (rs(provider tr \<mapsto> st1)) (provider ?tr2) = ?st"
      using fr pn by (simp add: reset_cycle_simps state_at_def)
    from get_next_key_same_cycle_available [OF g2 nr2]
    have "k |\<in>| keys_attempted tr \<or> \<not> in_cooldown cd (clock (Suc 0)) ?st k"
      unfolding st using pn by (simp add: reset_cycle_simps)
    then show ?thesis by simp
  qed
qed

lemma in_cooldown_marked:
  "in_cooldown cd t' (state_at (mark_key_failed p k t rs) p) k \<longleftrightarrow> 0 < KEY_COOLDOWN_SECONDS cd \<and> float_sub cd t' t < real_of_int (KEY_COOLDOWN_SECONDS cd)"
  by (simp add: in_cooldown_def mark_key_failed_def state_at_def Let_def)

lemma in_cooldown_marked_other:
  "k' \<noteq> k \<Longrightarrow> in_cooldown cd t' (state_at (mark_key_failed p k t rs) p) k' = in_cooldown cd t' (state_at rs p) k'"
  by (simp add: in_cooldown_def mark_key_failed_def state_at_def Let_def)

lemma run_skip:
  "provider tr = p \<Longrightarrow> k |\<notin>| keys_attempted tr \<Longrightarrow> failed_keys (state_at rs p) k = Some t \<Longrightarrow>
   (\<forall>c \<in> set clocks. \<forall>i. 0 \<le> float_sub cd (c i) t \<and> float_sub cd (c i) t < real_of_int (KEY_COOLDOWN_SECONDS cd)) \<Longrightarrow>
     Some k \<notin> set (fst (run_calls cd (map Get_next_key clocks) tr rs))"
proof (induction clocks arbitrary: tr rs)
  case Nil
  then show ?case by simp
next
  case (Cons clock clocks)
  obtain r tr1 rs1 where g: "get_next_key cd clock tr rs = (r, tr1, rs1)"
    by (cases "get_next_key cd clock tr rs") auto
  obtain res1 tr2 rs2 where rc: "run_calls cd (map Get_next_key clocks) tr1 rs1 = (res1, tr2, rs2)"
    by (cases "run_calls cd (map Get_next_key clocks) tr1 rs1") auto
  from Cons.prems(4) have c: "0 \<le> float_sub cd (clock i) t \<and> float_sub cd (clock i) t < real_of_int (KEY_COOLDOWN_SECONDS cd)" for i by simp
  from c [of 0] have "0 < real_of_int (KEY_COOLDOWN_SECONDS cd)" by linarith
  then have cd: "0 < KEY_COOLDOWN_SECONDS cd" by simp
  with c Cons.prems(3) have ic: "in_cooldown cd (clock i) (state_at rs p) k" for i
    by (simp add: in_cooldown_def)
  have r: "r \<noteq> Some k"
  proof
    assume "r = Some k"
    from get_next_key_available [OF g [unfolded this]] Cons.prems(1,2) ic show False by simp
  qed
  note e = get_next_key_effect [OF g]
  from e(1) Cons.prems(1) have p1: "provider tr1 = p" by simp
  from e(3,4) r Cons.prems(2) have a1: "k |\<notin>| keys_attempted tr1" by (cases r) auto
  from get_next_key_failed_keys [of cd clock tr rs] Cons.prems(1,3)
  have f1: "failed_keys (state_at rs1 p) k = Some t" unfolding g by simp
  from Cons.prems(4) have c1: "\<forall>c \<in> set clocks. \<forall>i. 0 \<le> float_sub cd (c i) t \<and> float_sub cd (c i) t < real_of_int (KEY_COOLDOWN_SECONDS cd)" by simp
  from Cons.IH [OF p1 a1 f1 c1] rc have "Some k \<notin> set res1" by simp
  with r show ?case using run_calls_Get [OF g rc] by simp
qed

lemma rotation_surj:
  assumes "ks \<noteq> []" "k \<in> set ks"
  shows "\<exists>j < length ks. rotation ks l (Suc j) = k"
proof -
  let ?n = "int (length ks)"
  have n: "0 < ?n" using assms(1) by simp
  from assms(2) obtain i where i: "i < length ks" "ks ! i = k"
    by (auto simp: in_set_conv_nth)
  define j where "j = nat ((int i - l - 1) mod ?n)"
  have j: "int j = (int i - l - 1) mod ?n" using n by (simp add: j_def)
  then have "j < length ks" using n by (simp add: j_def nat_less_iff)
  moreover have "(l + int (Suc j)) mod ?n = int i"
  proof -
    have "(l + int (Suc j)) mod ?n = (l + 1 + (int i - l - 1) mod ?n) mod ?n"
      using j by (simp add: algebra_simps)
    also have "\<dots> = (l + 1 + (int i - l - 1)) mod ?n" by (simp add: mod_add_right_eq)
    also have "\<dots> = int i" using i(1) by simp
    finally show ?thesis .
  qed
  then have "rotation ks l (Suc j) = k" using i(2) by (simp add: rotation_def del: of_nat_Suc)
  ultimately show ?thesis by blast
qed


subsection \<open>C3: round-robin selection\<close>




subsection \<open>C2: a failed key is skipped during its cooldown and returned after it\<close>

lemma run_calls_length:
  "length (fst (run_calls cd (map Get_next_key clocks) tr rs)) = length clocks"
proof (induction clocks arbitrary: tr rs)
  case Nil
  then show ?case by simp
next
  case (Cons clock clocks)
  obtain r tr1 rs1 where g: "get_next_key cd clock tr rs = (r, tr1, rs1)"
    by (cases "get_next_key cd clock tr rs") auto
  obtain res1 tr2 rs2 where rc: "run_calls cd (map Get_next_key clocks) tr1 rs1 = (res1, tr2, rs2)"
    by (cases "run_calls cd (map Get_next_key clocks) tr1 rs1") auto
  from Cons.IH [of tr1 rs1] rc have "length res1 = length clocks" by simp
  then show ?case using run_calls_Get [OF g rc] by simp
qed

lemma get_next_key_turn:
  assumes ne: "all_keys tr \<noteq> []" and lt: "current_cycle tr < max_cycles tr"
    and nt: "next_candidate tr |\<notin>| keys_tried_this_cycle tr"
    and av: "next_candidate tr |\<in>| keys_attempted tr \<or>
             \<not> in_cooldown cd (clock 0) (state_at rs (provider tr)) (next_candidate tr)"
  shows "fst (get_next_key cd clock tr rs) = Some (next_candidate tr)"
proof -
  from nt av have ns: "\<not> skipped cd (clock 0) tr (state_at rs (provider tr))"
    by (auto simp: skipped_def)
  from ne obtain n' where n': "length (all_keys tr) = Suc n'"
    by (cases "all_keys tr") auto
  have p: "probe_keys cd (clock 0) (length (all_keys tr)) tr (state_at rs (provider tr)) =
      (Some (next_candidate tr),
       tr\<lparr>key_index := next_index tr,
          keys_tried_this_cycle := finsert (next_candidate tr) (keys_tried_this_cycle tr),
          keys_attempted := finsert (next_candidate tr) (keys_attempted tr)\<rparr>,
       (state_at rs (provider tr))\<lparr>last_used_index := next_index tr\<rparr>)"
    unfolding n' by (rule probe_keys_accept [OF ns])
  show ?thesis
    unfolding get_next_key_found [where clock = clock, OF ne lt p] by simp
qed

lemma fresh_tracker_returns:
  assumes init: "KeyCycleTracker_init cfg env mc p mo (mark_key_failed p k t rs) = (tr0, rs0)"
    and kmem: "k \<in> set (all_keys tr0)" and m: "1 \<le> max_cycles tr0"
    and len: "length (all_keys tr0) \<le> length clocks"
    and exp: "\<forall>c \<in> set clocks. real_of_int (KEY_COOLDOWN_SECONDS cd) \<le> float_sub cd (c 0) t"
    and oth: "\<forall>c \<in> set clocks. \<forall>k' \<in> set (all_keys tr0). k' \<noteq> k \<longrightarrow>
                \<not> in_cooldown cd (c 0) (state_at rs p) k'"
  shows "Some k \<in> set (take (length (all_keys tr0)) (fst (run_calls cd (map Get_next_key clocks) tr0 rs0)))"
proof -
  let ?rsm = "mark_key_failed p k t rs"
  let ?l = "last_used_index (state_at ?rsm p)"
  let ?res = "fst (run_calls cd (map Get_next_key clocks) tr0 rs0)"
  note i = init_tracker [OF init]
  from i have pr: "provider tr0 = p" by simp
  have st: "state_at rs0 p = state_at ?rsm p"
    using init by (auto simp: KeyCycleTracker_init_def touch_def state_at_def split: option.splits)
  from kmem have ne0: "all_keys tr0 \<noteq> []" by auto
  have d0: "distinct (all_keys tr0)" using i by (simp add: distinct_parse_provider_keys)
  have av0: "\<forall>c \<in> set clocks. \<forall>k' \<in> set (all_keys tr0). k' |\<in>| keys_attempted tr0 \<or>
               \<not> in_cooldown cd (c 0) (state_at rs0 (provider tr0)) k'"
  proof (intro ballI)
    fix c k' assume c: "c \<in> set clocks" and k': "k' \<in> set (all_keys tr0)"
    have "\<not> in_cooldown cd (c 0) (state_at ?rsm p) k'"
    proof (cases "k' = k")
      case True
      from exp c have "real_of_int (KEY_COOLDOWN_SECONDS cd) \<le> float_sub cd (c 0) t" by simp
      then show ?thesis unfolding True in_cooldown_marked by simp
    next
      case False
      with oth c k' show ?thesis by (simp add: in_cooldown_marked_other)
    qed
    then show "k' |\<in>| keys_attempted tr0 \<or> \<not> in_cooldown cd (c 0) (state_at rs0 (provider tr0)) k'"
      by (simp add: pr st)
  qed
  note run = rr_run [OF rr_state_init [OF init] ne0 d0 av0]
  from rotation_surj [OF ne0 kmem, of ?l]
  obtain j where j: "j < length (all_keys tr0)" and rot: "rotation (all_keys tr0) ?l (Suc j) = k"
    by blast
  from j len have jl: "j < length clocks" by simp
  have "int (Suc j) \<le> 1 * int (length (all_keys tr0))" using j by simp
  also have "\<dots> \<le> max_cycles tr0 * int (length (all_keys tr0))"
    using m by (intro mult_right_mono) simp_all
  finally have room: "int (Suc j) \<le> max_cycles tr0 * int (length (all_keys tr0))" .
  have "?res ! j = Some k"
    unfolding run using jl room rot by simp
  moreover have "length ?res = length clocks" by (rule run_calls_length)
  ultimately have "take (length (all_keys tr0)) ?res ! j = Some k"
    and "j < length (take (length (all_keys tr0)) ?res)"
    using j jl by simp_all
  then show ?thesis by (metis nth_mem)
qed

text \<open>
  Claim C2. A failure of key \<open>k\<close> of provider \<open>p\<close> is recorded at time \<open>t\<close>
  (\<^verbatim>\<open>mark_key_failed\<close>, which is what \<^verbatim>\<open>mark_failed\<close> of a tracker calls), and a tracker
  that has not attempted \<open>k\<close> calls \<^verbatim>\<open>get_next_key\<close> at times not before \<open>t\<close>. The entry
  of \<open>k\<close> counts as expired at time \<open>t'\<close> exactly when \<open>float_sub cd t' t \<ge> cooldown\<close>. While the
  clock readings stay below \<open>t + cooldown\<close>, no call returns \<open>k\<close>. When the reading is
  at least \<open>t + cooldown\<close>, the call returns \<open>k\<close> if \<open>k\<close> is the next key in rotation
  and has not been tried in the running cycle; and a fresh tracker with at least one
  cycle, all other keys being available, returns \<open>k\<close> in one of its first \<open>len(keys)\<close>
  calls.
\<close>

theorem cooldown_skip_then_return:
  "mark_failed tr1 k t rs = mark_key_failed (provider tr1) k t rs \<and>
   (0 \<le> float_sub cd t' t \<or> 0 < KEY_COOLDOWN_SECONDS cd \<longrightarrow>
      (in_cooldown cd t' (state_at (mark_key_failed p k t rs) p) k \<longleftrightarrow> float_sub cd t' t < real_of_int (KEY_COOLDOWN_SECONDS cd))) \<and>
   (provider tr = p \<and> k |\<notin>| keys_attempted tr \<and>
    (\<forall>c \<in> set clocks. \<forall>i. 0 \<le> float_sub cd (c i) t \<and> float_sub cd (c i) t < real_of_int (KEY_COOLDOWN_SECONDS cd)) \<longrightarrow>
      Some k \<notin> set (fst (run_calls cd (map Get_next_key clocks) tr (mark_key_failed p k t rs)))) \<and>
   (provider tr = p \<and> all_keys tr \<noteq> [] \<and> current_cycle tr < max_cycles tr \<and>
    next_candidate tr = k \<and> k |\<notin>| keys_tried_this_cycle tr \<and> real_of_int (KEY_COOLDOWN_SECONDS cd) \<le> float_sub cd (clock 0) t \<longrightarrow>
      fst (get_next_key cd clock tr (mark_key_failed p k t rs)) = Some k) \<and>
   (KeyCycleTracker_init cfg env mc p mo (mark_key_failed p k t rs) = (tr0, rs0) \<and>
    k \<in> set (all_keys tr0) \<and> 1 \<le> max_cycles tr0 \<and> length (all_keys tr0) \<le> length clocks \<and>
    (\<forall>c \<in> set clocks. real_of_int (KEY_COOLDOWN_SECONDS cd) \<le> float_sub cd (c 0) t) \<and>
    (\<forall>c \<in> set clocks. \<forall>k' \<in> set (all_keys tr0). k' \<noteq> k \<longrightarrow>
        \<not> in_cooldown cd (c 0) (state_at rs p) k') \<longrightarrow>
      Some k \<in> set (take (length (all_keys tr0))
                      (fst (run_calls cd (map Get_next_key clocks) tr0 rs0))))"
proof -
  let ?rsm = "mark_key_failed p k t rs"
  have A: "mark_failed tr1 k t rs = mark_key_failed (provider tr1) k t rs"
    by (simp add: mark_failed_def)
  have B: "in_cooldown cd t' (state_at ?rsm p) k \<longleftrightarrow> float_sub cd t' t < real_of_int (KEY_COOLDOWN_SECONDS cd)"
    if "0 \<le> float_sub cd t' t \<or> 0 < KEY_COOLDOWN_SECONDS cd"
  proof (cases "0 < KEY_COOLDOWN_SECONDS cd")
    case True
    then show ?thesis by (simp add: in_cooldown_marked)
  next
    case False
    with that have "0 \<le> float_sub cd t' t" by simp
    moreover from False have "real_of_int (KEY_COOLDOWN_SECONDS cd) \<le> 0" by simp
    ultimately have "\<not> float_sub cd t' t < real_of_int (KEY_COOLDOWN_SECONDS cd)" by linarith
    with False show ?thesis by (simp add: in_cooldown_marked)
  qed
  have fk: "failed_keys (state_at ?rsm p) k = Some t"
    by (simp add: mark_key_failed_def state_at_def Let_def)
  have C: "Some k \<notin> set (fst (run_calls cd (map Get_next_key clocks) tr ?rsm))"
    if "provider tr = p" "k |\<notin>| keys_attempted tr"
      "\<forall>c \<in> set clocks. \<forall>i. 0 \<le> float_sub cd (c i) t \<and> float_sub cd (c i) t < real_of_int (KEY_COOLDOWN_SECONDS cd)"
    using run_skip [OF that(1,2) fk that(3)] .
  have D: "fst (get_next_key cd clock tr ?rsm) = Some k"
    if pr: "provider tr = p" and ne: "all_keys tr \<noteq> []" and lt: "current_cycle tr < max_cycles tr"
      and nc: "next_candidate tr = k" and nt: "k |\<notin>| keys_tried_this_cycle tr"
      and ex: "real_of_int (KEY_COOLDOWN_SECONDS cd) \<le> float_sub cd (clock 0) t"
  proof -
    from ex have "\<not> in_cooldown cd (clock 0) (state_at ?rsm (provider tr)) (next_candidate tr)"
      unfolding pr nc in_cooldown_marked by simp
    from get_next_key_turn [where clock = clock, OF ne lt nt [folded nc] disjI2 [OF this]]
    show ?thesis by (simp only: nc)
  qed
  have E: "Some k \<in> set (take (length (all_keys tr0))
                      (fst (run_calls cd (map Get_next_key clocks) tr0 rs0)))"
    if "KeyCycleTracker_init cfg env mc p mo ?rsm = (tr0, rs0)"
      "k \<in> set (all_keys tr0)" "1 \<le> max_cycles tr0" "length (all_keys tr0) \<le> length clocks"
      "\<forall>c \<in> set clocks. real_of_int (KEY_COOLDOWN_SECONDS cd) \<le> float_sub cd (c 0) t"
      "\<forall>c \<in> set clocks. \<forall>k' \<in> set (all_keys tr0). k' \<noteq> k \<longrightarrow>
        \<not> in_cooldown cd (c 0) (state_at rs p) k'"
    using fresh_tracker_returns [OF that] .
  from A B C D E show ?thesis by blast
qed


theorem cooldown_skip_then_return_witness:
  "in_cooldown (exact_seconds 60) 30 (state_at (mark_key_failed ''openai'' ''B'' 10 rotation_AB) ''openai'') ''B'' \<and>
   \<not> in_cooldown (exact_seconds 60) 70 (state_at (mark_key_failed ''openai'' ''B'' 10 rotation_AB) ''openai'') ''B'' \<and>
   Some ''B'' \<notin> set (fst (run_calls (exact_seconds 60) (map Get_next_key [steady_clock 30, steady_clock 69])
                          tracker_AB (mark_key_failed ''openai'' ''B'' 10 rotation_AB))) \<and>
   fst (get_next_key (exact_seconds 60) (steady_clock 70) (tracker_AB\<lparr>key_index := 0\<rparr>)
         (mark_key_failed ''openai'' ''B'' 10 rotation_AB)) = Some ''B'' \<and>
   Some ''B'' \<in> set (take 2 (fst (run_calls (exact_seconds 60) (map Get_next_key [steady_clock 70, steady_clock 71])
        (fst (KeyCycleTracker_init no_config env_AB 1 ''openai'' (Some 2)
                (mark_key_failed ''openai'' ''B'' 10 rotation_AB)))
        (snd (KeyCycleTracker_init no_config env_AB 1 ''openai'' (Some 2)
                (mark_key_failed ''openai'' ''B'' 10 rotation_AB))))))"
proof -
  let ?rsm = "mark_key_failed ''openai'' ''B'' 10 rotation_AB"
  let ?init = "KeyCycleTracker_init no_config env_AB 1 ''openai'' (Some 2) ?rsm"
  let ?early = "[steady_clock 30, steady_clock 69]"
  let ?late = "[steady_clock 70, steady_clock 71]"
  have a: "in_cooldown (exact_seconds 60) 30 (state_at ?rsm ''openai'') ''B''"
    using cooldown_skip_then_return [where t = 10 and t' = 30 and cd = "exact_seconds 60" and p = "''openai''"
        and k = "''B''" and rs = rotation_AB]
    by (simp add: exact_seconds_def)
  have b: "\<not> in_cooldown (exact_seconds 60) 70 (state_at ?rsm ''openai'') ''B''"
    using cooldown_skip_then_return [where t = 10 and t' = 70 and cd = "exact_seconds 60" and p = "''openai''"
        and k = "''B''" and rs = rotation_AB]
    by (simp add: exact_seconds_def)
  have h1: "provider tracker_AB = ''openai''" "''B'' |\<notin>| keys_attempted tracker_AB"
    by (simp_all add: tracker_AB_eq)
  have h2: "\<forall>c \<in> set ?early. \<forall>i. 0 \<le> float_sub (exact_seconds 60) (c i) 10 \<and> float_sub (exact_seconds 60) (c i) 10 < real_of_int (KEY_COOLDOWN_SECONDS (exact_seconds 60))"
    by (simp add: steady_clock_def exact_seconds_def)
  from cooldown_skip_then_return [where t = 10 and cd = "exact_seconds 60" and p = "''openai''" and k = "''B''"
      and rs = rotation_AB and tr = tracker_AB and clocks = ?early] h1 h2
  have c: "Some ''B'' \<notin> set (fst (run_calls (exact_seconds 60) (map Get_next_key ?early) tracker_AB ?rsm))"
    by blast
  have h3: "provider (tracker_AB\<lparr>key_index := 0\<rparr>) = ''openai''"
    "all_keys (tracker_AB\<lparr>key_index := 0\<rparr>) \<noteq> []"
    "current_cycle (tracker_AB\<lparr>key_index := 0\<rparr>) < max_cycles (tracker_AB\<lparr>key_index := 0\<rparr>)"
    "next_candidate (tracker_AB\<lparr>key_index := 0\<rparr>) = ''B''"
    "''B'' |\<notin>| keys_tried_this_cycle (tracker_AB\<lparr>key_index := 0\<rparr>)"
    "real_of_int (KEY_COOLDOWN_SECONDS (exact_seconds 60)) \<le> float_sub (exact_seconds 60) (steady_clock 70 0) 10"
    by (simp_all add: tracker_AB_eq next_candidate_def next_index_def steady_clock_def exact_seconds_def)
  from cooldown_skip_then_return [where t = 10 and cd = "exact_seconds 60" and p = "''openai''" and k = "''B''"
      and rs = rotation_AB and tr = "tracker_AB\<lparr>key_index := 0\<rparr>" and clock = "steady_clock 70"] h3
  have d: "fst (get_next_key (exact_seconds 60) (steady_clock 70) (tracker_AB\<lparr>key_index := 0\<rparr>) ?rsm) = Some ''B''"
    by blast
  have ak: "all_keys (fst ?init) = [''A'', ''B'']" and mx: "max_cycles (fst ?init) = 2"
    by (simp_all add: KeyCycleTracker_init_def parse_AB)
  have len2: "length (all_keys (fst ?init)) = 2" by (simp add: ak)
  have h4: "?init = (fst ?init, snd ?init)" "''B'' \<in> set (all_keys (fst ?init))"
    "1 \<le> max_cycles (fst ?init)" "length (all_keys (fst ?init)) \<le> length ?late"
    "\<forall>c \<in> set ?late. real_of_int (KEY_COOLDOWN_SECONDS (exact_seconds 60)) \<le> float_sub (exact_seconds 60) (c 0) 10"
    "\<forall>c \<in> set ?late. \<forall>k' \<in> set (all_keys (fst ?init)). k' \<noteq> ''B'' \<longrightarrow>
        \<not> in_cooldown (exact_seconds 60) (c 0) (state_at rotation_AB ''openai'') k'"
    unfolding ak mx
    by (simp_all add: steady_clock_def in_cooldown_def rotation_AB_eq state_at_def
        KeyRotationState_default_def exact_seconds_def)
  from cooldown_skip_then_return [where t = 10 and cd = "exact_seconds 60" and p = "''openai''" and k = "''B''"
      and rs = rotation_AB and cfg = no_config and env = env_AB and mc = 1 and mo = "Some 2"
      and ?tr0.0 = "fst ?init" and ?rs0.0 = "snd ?init" and clocks = ?late] h4
  have "Some ''B'' \<in> set (take (length (all_keys (fst ?init)))
      (fst (run_calls (exact_seconds 60) (map Get_next_key ?late) (fst ?init) (snd ?init))))"
    by blast
  then have e: "Some ''B'' \<in> set (take 2 (fst (run_calls (exact_seconds 60) (map Get_next_key ?late) (fst ?init) (snd ?init))))"
    unfolding len2 .
  from a b c d e show ?thesis by blast
qed

subsection \<open>C6: expired failure entries\<close>

lemma skipped_cong:
  "\<forall>k. in_cooldown cd t st2 k = in_cooldown cd t st k \<Longrightarrow> skipped cd t tr st2 = skipped cd t tr st"
  by (simp add: skipped_def)

lemma probe_keys_cong:
  assumes ic: "\<forall>k. in_cooldown cd t (st\<lparr>failed_keys := fk2\<rparr>) k = in_cooldown cd t st k"
  shows "probe_keys cd t n tr st = (r, tr', st') \<Longrightarrow>
     probe_keys cd t n tr (st\<lparr>failed_keys := fk2\<rparr>) = (r, tr', st'\<lparr>failed_keys := fk2\<rparr>)"
proof (induction n arbitrary: tr)
  case 0
  then show ?case by auto
next
  case (Suc n)
  note sk = skipped_cong [OF ic, of tr]
  show ?case
  proof (cases "skipped cd t tr st")
    case True
    from Suc.prems have "probe_keys cd t n (tr\<lparr>key_index := next_index tr\<rparr>) st = (r, tr', st')"
      unfolding probe_keys_skip [OF True] .
    from Suc.IH [OF this] show ?thesis
      unfolding probe_keys_skip [OF True [folded sk]] .
  next
    case False
    from Suc.prems show ?thesis
      unfolding probe_keys_accept [OF False] probe_keys_accept [OF False [folded sk]] by auto
  qed
qed

lemma get_next_key_cong_same_cycle:
  assumes nr: "\<not> should_reset_cycle tr"
    and st2: "state_at rs2 (provider tr) = (state_at rs (provider tr))\<lparr>failed_keys := fk2\<rparr>"
    and ic: "\<forall>k. in_cooldown cd (clock 0) ((state_at rs (provider tr))\<lparr>failed_keys := fk2\<rparr>) k =
                 in_cooldown cd (clock 0) (state_at rs (provider tr)) k"
  shows "fst (get_next_key cd clock tr rs2) = fst (get_next_key cd clock tr rs) \<and>
         fst (snd (get_next_key cd clock tr rs2)) = fst (snd (get_next_key cd clock tr rs))"
proof (cases "all_keys tr = [] \<or> max_cycles tr \<le> current_cycle tr")
  case True
  then show ?thesis by (simp add: get_next_key_early)
next
  case False
  then have ne: "all_keys tr \<noteq> []" and lt: "current_cycle tr < max_cycles tr" by auto
  let ?st = "state_at rs (provider tr)"
  obtain r1 tr1 st1 where p: "probe_keys cd (clock 0) (length (all_keys tr)) tr ?st = (r1, tr1, st1)"
    by (cases "probe_keys cd (clock 0) (length (all_keys tr)) tr ?st") auto
  have p2: "probe_keys cd (clock 0) (length (all_keys tr)) tr (state_at rs2 (provider tr)) =
      (r1, tr1, st1\<lparr>failed_keys := fk2\<rparr>)"
    unfolding st2 by (rule probe_keys_cong [OF ic p])
  note fr = probe_keys_frame [OF p]
  show ?thesis
  proof (cases r1)
    case None
    note pn = probe_keys_None [OF p [unfolded None]]
    with nr fr have nr1: "\<not> should_reset_cycle tr1" by (simp add: should_reset_cycle_def)
    show ?thesis
      unfolding get_next_key_stuck [where clock = clock, OF ne lt p [unfolded None] nr1]
        get_next_key_stuck [where clock = clock, OF ne lt p2 [unfolded None] nr1]
      by simp
  next
    case (Some k)
    show ?thesis
      unfolding get_next_key_found [where clock = clock, OF ne lt p [unfolded Some]]
        get_next_key_found [where clock = clock, OF ne lt p2 [unfolded Some]]
      by simp
  qed
qed

lemma get_next_key_cong:
  assumes st2: "state_at rs2 (provider tr) = (state_at rs (provider tr))\<lparr>failed_keys := fk2\<rparr>"
    and ic: "\<forall>i k. in_cooldown cd (clock i) ((state_at rs (provider tr))\<lparr>failed_keys := fk2\<rparr>) k =
                 in_cooldown cd (clock i) (state_at rs (provider tr)) k"
  shows "fst (get_next_key cd clock tr rs2) = fst (get_next_key cd clock tr rs) \<and>
         fst (snd (get_next_key cd clock tr rs2)) = fst (snd (get_next_key cd clock tr rs))"
proof (cases "should_reset_cycle tr")
  case False
  from ic have "\<forall>k. in_cooldown cd (clock 0) ((state_at rs (provider tr))\<lparr>failed_keys := fk2\<rparr>) k =
                 in_cooldown cd (clock 0) (state_at rs (provider tr)) k" by blast
  from get_next_key_cong_same_cycle [where clock = clock, OF False st2 this] show ?thesis .
next
  case sr: True
  show ?thesis
  proof (cases "all_keys tr = [] \<or> max_cycles tr \<le> current_cycle tr")
    case True
    then show ?thesis by (simp add: get_next_key_early)
  next
    case False
    then have ne: "all_keys tr \<noteq> []" and lt: "current_cycle tr < max_cycles tr" by auto
    let ?st = "state_at rs (provider tr)"
    obtain r1 tr1 st1 where p: "probe_keys cd (clock 0) (length (all_keys tr)) tr ?st = (r1, tr1, st1)"
      by (cases "probe_keys cd (clock 0) (length (all_keys tr)) tr ?st") auto
    from ic have ic0: "\<forall>k. in_cooldown cd (clock 0) (?st\<lparr>failed_keys := fk2\<rparr>) k =
                 in_cooldown cd (clock 0) ?st k" by blast
    have p2: "probe_keys cd (clock 0) (length (all_keys tr)) tr (state_at rs2 (provider tr)) =
        (r1, tr1, st1\<lparr>failed_keys := fk2\<rparr>)"
      unfolding st2 by (rule probe_keys_cong [OF ic0 p])
    note fr = probe_keys_frame [OF p]
    show ?thesis
    proof (cases r1)
      case (Some k)
      show ?thesis
        unfolding get_next_key_found [where clock = clock, OF ne lt p [unfolded Some]]
          get_next_key_found [where clock = clock, OF ne lt p2 [unfolded Some]]
        by simp
    next
      case None
      note pn = probe_keys_None [OF p [unfolded None]]
      with sr fr have sr1: "should_reset_cycle tr1" by (simp add: should_reset_cycle_def)
      let ?tr2 = "reset_cycle tr1"
      let ?clock = "\<lambda>i. clock (Suc i)"
      let ?rsa = "rs(provider tr \<mapsto> st1)"
      let ?rsb = "rs2(provider tr \<mapsto> st1\<lparr>failed_keys := fk2\<rparr>)"
      have "all_keys tr1 \<noteq> []" using ne fr by simp
      then have nr2: "\<not> should_reset_cycle ?tr2" by (rule not_should_reset_fresh)
      have pr2: "provider ?tr2 = provider tr" using fr by (simp add: reset_cycle_simps)
      have sa: "state_at ?rsa (provider ?tr2) = ?st"
        using pn by (simp add: pr2 state_at_def)
      have sb: "state_at ?rsb (provider ?tr2) = (state_at ?rsa (provider ?tr2))\<lparr>failed_keys := fk2\<rparr>"
        using pn by (simp add: pr2 state_at_def)
      from ic have ic1: "\<forall>k. in_cooldown cd (?clock 0) ((state_at ?rsa (provider ?tr2))\<lparr>failed_keys := fk2\<rparr>) k =
                 in_cooldown cd (?clock 0) (state_at ?rsa (provider ?tr2)) k"
        unfolding sa by blast
      from get_next_key_cong_same_cycle [where clock = ?clock, OF nr2 sb ic1]
      show ?thesis
        unfolding get_next_key_new_cycle [where clock = clock, OF ne lt p [unfolded None] sr1]
          get_next_key_new_cycle [where clock = clock, OF ne lt p2 [unfolded None] sr1] .
    qed
  qed
qed

lemma in_cooldown_without_entry:
  assumes "failed_keys st k = Some ft" "real_of_int (KEY_COOLDOWN_SECONDS cd) \<le> float_sub cd t ft"
  shows "in_cooldown cd t (st\<lparr>failed_keys := (failed_keys st)(k := None)\<rparr>) k' = in_cooldown cd t st k'"
  using assms by (cases "k' = k") (simp_all add: in_cooldown_def)

lemma state_at_without_entry:
  "state_at (without_entry p k rs) p = (state_at rs p)\<lparr>failed_keys := (failed_keys (state_at rs p))(k := None)\<rparr>"
  by (simp add: without_entry_def state_at_def)

lemma api_key_scan_skip:
  assumes "in_cooldown cd now st (ks ! nat ((last_used_index st + 1 + int offset) mod int (length ks)))"
  shows "api_key_scan cd now ks st (offset # rest) = api_key_scan cd now ks st rest"
  using assms by (auto simp: in_cooldown_def Let_def split: option.splits)

lemma api_key_scan_cong:
  assumes ic: "\<forall>k. in_cooldown cd now (st\<lparr>failed_keys := fk2\<rparr>) k = in_cooldown cd now st k"
  shows "fst (api_key_scan cd now ks (st\<lparr>failed_keys := fk2\<rparr>) offs) = fst (api_key_scan cd now ks st offs) \<and>
         last_used_index (snd (api_key_scan cd now ks (st\<lparr>failed_keys := fk2\<rparr>) offs)) =
         last_used_index (snd (api_key_scan cd now ks st offs))"
proof (induction offs)
  case Nil
  show ?case by simp
next
  case (Cons offset rest)
  let ?st2 = "st\<lparr>failed_keys := fk2\<rparr>"
  let ?c = "ks ! nat ((last_used_index st + 1 + int offset) mod int (length ks))"
  have c2: "ks ! nat ((last_used_index ?st2 + 1 + int offset) mod int (length ks)) = ?c" by simp
  show ?case
  proof (cases "in_cooldown cd now st ?c")
    case True
    with ic have T2: "in_cooldown cd now ?st2 (ks ! nat ((last_used_index ?st2 + 1 + int offset) mod int (length ks)))"
      unfolding c2 by blast
    from Cons.IH show ?thesis
      unfolding api_key_scan_skip [OF True] api_key_scan_skip [OF T2] .
  next
    case False
    with ic have F2: "\<not> in_cooldown cd now ?st2 (ks ! nat ((last_used_index ?st2 + 1 + int offset) mod int (length ks)))"
      unfolding c2 by blast
    from api_key_scan_available [OF False, of rest] api_key_scan_available [OF F2, of rest]
    show ?thesis by auto
  qed
qed

lemma api_key_scan_failed_keys:
  "api_key_scan cd now ks st offs = (r, st') \<Longrightarrow>
     failed_keys st' = (case r of None \<Rightarrow> failed_keys st
                        | Some c \<Rightarrow> if 0 < KEY_COOLDOWN_SECONDS cd then (failed_keys st)(c := None) else failed_keys st)"
proof (induction offs)
  case Nil
  then show ?case by auto
next
  case (Cons offset rest)
  let ?c = "ks ! nat ((last_used_index st + 1 + int offset) mod int (length ks))"
  show ?case
  proof (cases "in_cooldown cd now st ?c")
    case True
    from Cons.prems Cons.IH show ?thesis
      unfolding api_key_scan_skip [OF True] by blast
  next
    case False
    show ?thesis
    proof (cases "failed_keys st ?c")
      case None
      then have "(failed_keys st)(?c := None) = failed_keys st" by (rule fun_upd_idem)
      with Cons.prems None show ?thesis by (auto simp: Let_def)
    next
      case (Some ft)
      with False Cons.prems show ?thesis
        by (auto simp: Let_def in_cooldown_def split: if_splits)
    qed
  qed
qed


lemma api_key_scan_returns_available:
  "api_key_scan cd now ks st offs = (Some c, st') \<Longrightarrow> \<not> in_cooldown cd now st c"
proof (induction offs)
  case Nil
  then show ?case by simp
next
  case (Cons offset rest)
  let ?c = "ks ! nat ((last_used_index st + 1 + int offset) mod int (length ks))"
  show ?case
  proof (cases "in_cooldown cd now st ?c")
    case True
    from Cons.prems Cons.IH show ?thesis
      unfolding api_key_scan_skip [OF True] by blast
  next
    case False
    from api_key_scan_available [OF False, of rest] Cons.prems have "c = ?c" by auto
    with False show ?thesis by simp
  qed
qed

lemma get_api_key_purge:
  assumes g: "get_api_key cfg env cd now p rs = (r, rs')"
  shows "failed_keys (state_at rs' p) =
           (case r of None \<Rightarrow> failed_keys (state_at rs p)
            | Some c \<Rightarrow> if 0 < KEY_COOLDOWN_SECONDS cd then (failed_keys (state_at rs p))(c := None)
                        else failed_keys (state_at rs p))"
    and "\<forall>q. q \<noteq> p \<longrightarrow> rs' q = rs q"
    and "\<forall>c. r = Some c \<longrightarrow> \<not> in_cooldown cd now (state_at rs p) c"
proof -
  let ?ks = "parse_provider_keys cfg env p"
  let ?A = "failed_keys (state_at rs' p) =
           (case r of None \<Rightarrow> failed_keys (state_at rs p)
            | Some c \<Rightarrow> if 0 < KEY_COOLDOWN_SECONDS cd then (failed_keys (state_at rs p))(c := None)
                        else failed_keys (state_at rs p))"
  let ?B = "\<forall>q. q \<noteq> p \<longrightarrow> rs' q = rs q"
  let ?C = "\<forall>c. r = Some c \<longrightarrow> \<not> in_cooldown cd now (state_at rs p) c"
  have "?A \<and> ?B \<and> ?C"
  proof (cases "?ks = []")
    case True
    with g have "r = None" "rs' = rs" by (simp_all add: get_api_key_def)
    then show ?thesis by simp
  next
    case False
    obtain r1 st1 where a: "api_key_scan cd now ?ks (state_at rs p) [0..<length ?ks] = (r1, st1)"
      by (cases "api_key_scan cd now ?ks (state_at rs p) [0..<length ?ks]") auto
    with g False have r: "r = r1" and rs': "rs' = rs(p \<mapsto> st1)"
      by (simp_all add: get_api_key_def Let_def)
    have s: "state_at rs' p = st1" by (simp add: rs' state_at_def)
    have A: ?A unfolding s r by (rule api_key_scan_failed_keys [OF a])
    have B: ?B by (simp add: rs')
    have C: ?C using api_key_scan_returns_available a r by blast
    from A B C show ?thesis by blast
  qed
  then show ?A and ?B and ?C by blast+
qed

lemma get_api_key_scan:
  assumes "parse_provider_keys cfg env p \<noteq> []"
    and "api_key_scan cd now (parse_provider_keys cfg env p) (state_at rs p)
           [0..<length (parse_provider_keys cfg env p)] = (r, st')"
  shows "get_api_key cfg env cd now p rs = (r, rs(p \<mapsto> st'))"
  using assms by (simp add: get_api_key_def Let_def)

lemma get_api_key_cong:
  assumes st2: "state_at rs2 p = (state_at rs p)\<lparr>failed_keys := fk2\<rparr>"
    and ic: "\<forall>k. in_cooldown cd now ((state_at rs p)\<lparr>failed_keys := fk2\<rparr>) k =
                 in_cooldown cd now (state_at rs p) k"
  shows "fst (get_api_key cfg env cd now p rs2) = fst (get_api_key cfg env cd now p rs) \<and>
         last_used_index (state_at (snd (get_api_key cfg env cd now p rs2)) p) =
         last_used_index (state_at (snd (get_api_key cfg env cd now p rs)) p)"
proof (cases "parse_provider_keys cfg env p = []")
  case True
  then show ?thesis using st2 by (simp add: get_api_key_def)
next
  case False
  let ?ks = "parse_provider_keys cfg env p"
  obtain r1 st1 where a: "api_key_scan cd now ?ks (state_at rs p) [0..<length ?ks] = (r1, st1)"
    by (cases "api_key_scan cd now ?ks (state_at rs p) [0..<length ?ks]") auto
  obtain r2 st2' where b: "api_key_scan cd now ?ks (state_at rs2 p) [0..<length ?ks] = (r2, st2')"
    by (cases "api_key_scan cd now ?ks (state_at rs2 p) [0..<length ?ks]") auto
  from api_key_scan_cong [OF ic, of ?ks "[0..<length ?ks]"] a b [unfolded st2]
  have "r2 = r1" "last_used_index st2' = last_used_index st1" by simp_all
  then show ?thesis
    unfolding get_api_key_scan [OF False a] get_api_key_scan [OF False b]
    by (simp add: state_at_def)
qed

lemma get_next_key_others:
  "q \<noteq> provider tr \<Longrightarrow> snd (snd (get_next_key cd clock tr rs)) q = rs q"
proof -
  assume q: "q \<noteq> provider tr"
  from get_next_key_store [of "state_at rs (provider tr)" tr cd clock]
  obtain r tr' st' where
    all: "\<And>rs'. state_at rs' (provider tr) = state_at rs (provider tr) \<Longrightarrow>
        get_next_key cd clock tr rs' =
          (r, tr', if all_keys tr = [] \<or> max_cycles tr \<le> current_cycle tr then rs'
                   else rs'(provider tr \<mapsto> st'))"
    by blast
  show ?thesis unfolding all [OF refl] using q by simp
qed

text \<open>
  Claim C6, as the code has it. An expired failure entry is not observed: \<^verbatim>\<open>get_api_key\<close>
  and \<^verbatim>\<open>get_next_key\<close> select as they do on the state without the entry. Only
  \<^verbatim>\<open>get_api_key\<close> removes an entry, that of the key it returns, and only when
  \<^verbatim>\<open>KEY_COOLDOWN_SECONDS > 0\<close>; it leaves the other entries and the other providers as
  they are. \<^verbatim>\<open>get_next_key\<close> leaves \<^verbatim>\<open>failed_keys\<close> and the other providers as they
  are.
\<close>

theorem expired_entries_not_observed:
  "(failed_keys (state_at rs p) k = Some ft \<and> real_of_int (KEY_COOLDOWN_SECONDS cd) \<le> float_sub cd now ft \<longrightarrow>
      fst (get_api_key cfg env cd now p (without_entry p k rs)) = fst (get_api_key cfg env cd now p rs) \<and>
      last_used_index (state_at (snd (get_api_key cfg env cd now p (without_entry p k rs))) p) =
        last_used_index (state_at (snd (get_api_key cfg env cd now p rs)) p)) \<and>
   (get_api_key cfg env cd now p rs = (r, rs') \<longrightarrow>
      failed_keys (state_at rs' p) =
        (case r of None \<Rightarrow> failed_keys (state_at rs p)
         | Some c \<Rightarrow> if 0 < KEY_COOLDOWN_SECONDS cd then (failed_keys (state_at rs p))(c := None)
                     else failed_keys (state_at rs p)) \<and>
      (\<forall>q. q \<noteq> p \<longrightarrow> rs' q = rs q) \<and>
      (\<forall>c. r = Some c \<longrightarrow> \<not> in_cooldown cd now (state_at rs p) c)) \<and>
   (provider tr = p \<and> failed_keys (state_at rs p) k = Some ft \<and>
    (\<forall>i. real_of_int (KEY_COOLDOWN_SECONDS cd) \<le> float_sub cd (clock i) ft) \<longrightarrow>
      fst (get_next_key cd clock tr (without_entry p k rs)) = fst (get_next_key cd clock tr rs) \<and>
      fst (snd (get_next_key cd clock tr (without_entry p k rs))) =
        fst (snd (get_next_key cd clock tr rs))) \<and>
   failed_keys (state_at (snd (snd (get_next_key cd clock tr rs))) (provider tr)) =
     failed_keys (state_at rs (provider tr)) \<and>
   (\<forall>q. q \<noteq> provider tr \<longrightarrow> snd (snd (get_next_key cd clock tr rs)) q = rs q)"
proof -
  let ?fk2 = "(failed_keys (state_at rs p))(k := None)"
  have A: "fst (get_api_key cfg env cd now p (without_entry p k rs)) = fst (get_api_key cfg env cd now p rs) \<and>
      last_used_index (state_at (snd (get_api_key cfg env cd now p (without_entry p k rs))) p) =
        last_used_index (state_at (snd (get_api_key cfg env cd now p rs)) p)"
    if e: "failed_keys (state_at rs p) k = Some ft" and x: "real_of_int (KEY_COOLDOWN_SECONDS cd) \<le> float_sub cd now ft"
  proof -
    have "\<forall>k'. in_cooldown cd now ((state_at rs p)\<lparr>failed_keys := ?fk2\<rparr>) k' =
                 in_cooldown cd now (state_at rs p) k'"
      using in_cooldown_without_entry [OF e x] by blast
    from get_api_key_cong [OF state_at_without_entry this] show ?thesis .
  qed
  have B: "failed_keys (state_at rs' p) =
        (case r of None \<Rightarrow> failed_keys (state_at rs p)
         | Some c \<Rightarrow> if 0 < KEY_COOLDOWN_SECONDS cd then (failed_keys (state_at rs p))(c := None)
                     else failed_keys (state_at rs p)) \<and>
      (\<forall>q. q \<noteq> p \<longrightarrow> rs' q = rs q) \<and>
      (\<forall>c. r = Some c \<longrightarrow> \<not> in_cooldown cd now (state_at rs p) c)"
    if g: "get_api_key cfg env cd now p rs = (r, rs')"
    using get_api_key_purge [OF g] by blast
  have C: "fst (get_next_key cd clock tr (without_entry p k rs)) = fst (get_next_key cd clock tr rs) \<and>
      fst (snd (get_next_key cd clock tr (without_entry p k rs))) =
        fst (snd (get_next_key cd clock tr rs))"
    if pr: "provider tr = p" and e: "failed_keys (state_at rs p) k = Some ft"
      and x: "\<forall>i. real_of_int (KEY_COOLDOWN_SECONDS cd) \<le> float_sub cd (clock i) ft"
  proof -
    have ic: "\<forall>i k'. in_cooldown cd (clock i) ((state_at rs (provider tr))\<lparr>failed_keys := ?fk2\<rparr>) k' =
                 in_cooldown cd (clock i) (state_at rs (provider tr)) k'"
      unfolding pr using in_cooldown_without_entry [OF e] x by blast
    have st2: "state_at (without_entry p k rs) (provider tr) =
        (state_at rs (provider tr))\<lparr>failed_keys := ?fk2\<rparr>"
      unfolding pr by (rule state_at_without_entry)
    from get_next_key_cong [where clock = clock, OF st2 ic] show ?thesis .
  qed
  have D: "failed_keys (state_at (snd (snd (get_next_key cd clock tr rs))) (provider tr)) =
     failed_keys (state_at rs (provider tr))"
    by (rule get_next_key_failed_keys)
  have E: "\<forall>q. q \<noteq> provider tr \<longrightarrow> snd (snd (get_next_key cd clock tr rs)) q = rs q"
    using get_next_key_others by blast
  from A B C D E show ?thesis by blast
qed

theorem expired_entries_not_observed_witness:
  "failed_keys (state_at expired_A ''openai'') ''A'' = Some 0 \<and>
   fst (get_api_key no_config env_AB (exact_seconds 60) 100 ''openai'' expired_A) = Some ''A'' \<and>
   fst (get_api_key no_config env_AB (exact_seconds 60) 100 ''openai'' (without_entry ''openai'' ''A'' expired_A)) = Some ''A'' \<and>
   failed_keys (state_at (snd (get_api_key no_config env_AB (exact_seconds 60) 100 ''openai'' expired_A)) ''openai'') ''A'' = None \<and>
   fst (get_next_key (exact_seconds 60) (steady_clock 100) tracker_AB (without_entry ''openai'' ''A'' expired_A)) = Some ''A''"
proof -
  let ?g = "get_api_key no_config env_AB (exact_seconds 60) 100 ''openai'' expired_A"
  have e: "failed_keys (state_at expired_A ''openai'') ''A'' = Some 0"
    by (simp add: expired_A_def eval_AB)
  have x: "real_of_int (KEY_COOLDOWN_SECONDS (exact_seconds 60)) \<le> float_sub (exact_seconds 60) 100 0" by (simp add: exact_seconds_def)
  have xc: "\<forall>i. real_of_int (KEY_COOLDOWN_SECONDS (exact_seconds 60)) \<le> float_sub (exact_seconds 60) (steady_clock 100 i) 0"
    by (simp add: steady_clock_def exact_seconds_def)
  have pr: "provider tracker_AB = ''openai''" by (simp add: tracker_AB_eq)
  have a: "fst ?g = Some ''A''"
    by (simp add: eval_AB expired_A_def get_api_key_def parse_AB upt_rec)
  have n: "fst (get_next_key (exact_seconds 60) (steady_clock 100) tracker_AB expired_A) = Some ''A''"
    by (simp add: eval_AB expired_A_def)
  have g: "?g = (fst ?g, snd ?g)" by simp
  from expired_entries_not_observed [where rs = expired_A and p = "''openai''" and k = "''A''"
      and ft = 0 and cd = "exact_seconds 60" and now = 100 and cfg = no_config and env = env_AB] e x
  have b: "fst (get_api_key no_config env_AB (exact_seconds 60) 100 ''openai'' (without_entry ''openai'' ''A'' expired_A)) =
      fst ?g"
    by blast
  from expired_entries_not_observed [where rs = expired_A and p = "''openai''" and cd = "exact_seconds 60"
      and now = 100 and cfg = no_config and env = env_AB and r = "fst ?g" and rs' = "snd ?g"] g
  have "failed_keys (state_at (snd ?g) ''openai'') =
        (case fst ?g of None \<Rightarrow> failed_keys (state_at expired_A ''openai'')
         | Some c \<Rightarrow> if 0 < KEY_COOLDOWN_SECONDS (exact_seconds 60) then (failed_keys (state_at expired_A ''openai''))(c := None)
                     else failed_keys (state_at expired_A ''openai''))"
    by blast
  then have c: "failed_keys (state_at (snd ?g) ''openai'') ''A'' = None"
    unfolding a by (simp add: exact_seconds_def)
  from expired_entries_not_observed [where rs = expired_A and p = "''openai''" and k = "''A''"
      and ft = 0 and cd = "exact_seconds 60" and tr = tracker_AB and clock = "steady_clock 100"] pr e xc
  have d: "fst (get_next_key (exact_seconds 60) (steady_clock 100) tracker_AB (without_entry ''openai'' ''A'' expired_A)) =
      fst (get_next_key (exact_seconds 60) (steady_clock 100) tracker_AB expired_A)"
    by blast
  from e a b c d n show ?thesis by simp
qed

text \<open>
  The claim as stated fails for \<^verbatim>\<open>get_next_key\<close>: it returns a key whose entry has
  expired and leaves the entry in \<^verbatim>\<open>failed_keys\<close>. It also fails for \<^verbatim>\<open>get_api_key\<close>
  when \<^verbatim>\<open>KEY_COOLDOWN_SECONDS\<close> is \<open>0\<close>.
\<close>

theorem expired_entry_kept_counterexample:
  "failed_keys (state_at expired_A ''openai'') ''A'' = Some 0 \<and>
   real_of_int (KEY_COOLDOWN_SECONDS (exact_seconds 60)) \<le> float_sub (exact_seconds 60) (steady_clock 100 0) 0 \<and>
   fst (get_next_key (exact_seconds 60) (steady_clock 100) tracker_AB expired_A) = Some ''A'' \<and>
   failed_keys (state_at (snd (snd (get_next_key (exact_seconds 60) (steady_clock 100) tracker_AB expired_A))) ''openai'') ''A'' =
     Some 0 \<and>
   fst (get_api_key no_config env_AB (exact_seconds 0) 100 ''openai'' expired_A) = Some ''A'' \<and>
   failed_keys (state_at (snd (get_api_key no_config env_AB (exact_seconds 0) 100 ''openai'' expired_A)) ''openai'') ''A'' =
     Some 0"
  by (simp add: eval_AB expired_A_def get_api_key_def parse_AB upt_rec)

end
